theory Spec2Isabelle
  imports Main
begin

section \<open>The grammar tree (ast.h as used by parser.c)\<close>

text \<open>
  \<^verbatim>\<open>parser.c\<close> walks a prebuilt grammar tree against an input text. The tree types come
  from \<^verbatim>\<open>ast.h\<close>; only the members that \<^verbatim>\<open>parser.c\<close> reads are modelled.

  A \<^verbatim>\<open>struct literal\<close> holds a compiled PCRE pattern \<^verbatim>\<open>re\<close>. The PCRE library is an external
  capability, so the compiled pattern is a parameter: \<open>re l t off\<close> stands for
  \<^verbatim>\<open>pcre_exec(l->re, NULL, t, strlen(t), off, PCRE_ANCHORED, matches, NMATCHES)\<close> and
  is \<open>Some (matches[0], matches[1])\<close> when the call returns \<^verbatim>\<open>rc >= 1\<close>, \<open>None\<close> otherwise.
\<close>

record literal =
  pattern :: string
  re :: "string \<Rightarrow> int \<Rightarrow> (int \<times> int) option"

datatype quant = Q_ONCE | Q_MAYBE | Q_PLUS | Q_STAR

text \<open>
  \<^verbatim>\<open>struct match\<close>: the \<^verbatim>\<open>type\<close> tag is the constructor; every node has \<^verbatim>\<open>quant\<close> and the
  precomputed first-set \<^verbatim>\<open>first\<close>; the remaining member depends on the tag. Pointers to
  rules (\<^verbatim>\<open>match->rule\<close>, \<^verbatim>\<open>match->owner\<close>) are indices into the grammar's rule list, so
  that rules can refer to themselves and to each other.
\<close>

datatype abbrev = Abbrev (abbrev_name: string) (abbrev_literal: literal)

datatype match =
    LITERAL (quant: quant) (first: "literal list") (literal: literal)
  | ANY (quant: quant) (first: "literal list") (literal: literal)
  | FIELD (quant: quant) (first: "literal list") (owner: nat) (field: int)
  | ALTERNATIVE (quant: quant) (first: "literal list") (matches: "match list")
  | SEQUENCE (quant: quant) (first: "literal list") (matches: "match list")
  | RULE_REF (quant: quant) (first: "literal list") (rule: nat)
  | ABBREV_REF (quant: quant) (first: "literal list") (abbrev: abbrev)

datatype rule = Rule (rule_name: string) (rule_matches: match)

text \<open>
  \<^verbatim>\<open>struct grammar\<close>: the list of rules, whose head is the root rule. \<^verbatim>\<open>find_field\<close> is
  a helper of the grammar module that \<^verbatim>\<open>parser.c\<close> only calls; it is a parameter of the
  grammar here, \<open>None\<close> standing for the null pointer of an unresolved field.
\<close>

record grammar =
  rules :: "rule list"
  find_field :: "nat \<Rightarrow> int \<Rightarrow> match option"

section \<open>The parser state\<close>

datatype parse_flag = PF_ADVANCE | PF_MATCH | PF_TOKEN | PF_RULE

definition PF_NONE :: "parse_flag set" where
  "PF_NONE = {}"

datatype sink = Stdout | LogFile

text \<open>
  Everything the parser writes (trace lines to \<^verbatim>\<open>state->log\<close>, diagnostics to the error
  stream, the two lines \<^verbatim>\<open>parse\<close> prints itself) is recorded as a list of events, oldest
  first. The layout of a trace line is not modelled, only what it reports.
\<close>

datatype event =
    TraceAdvance int
  | TraceMatch int string "(int \<times> int) option"
  | TraceToken string string
  | TraceRule string
  | GrammarError string int string "int list"
  | PrintFlags "parse_flag set"
  | ParseFailed

text \<open>
  \<^verbatim>\<open>struct state\<close>. The input is a C string: \<open>input_text\<close> holds the characters before
  the terminating NUL, and the pointer \<^verbatim>\<open>pos\<close> is the offset \<^verbatim>\<open>pos - text\<close>. The text
  pointer is taken to be non-null (\<^verbatim>\<open>lex\<close> passes it to \<^verbatim>\<open>strlen\<close>), so \<^verbatim>\<open>pos\<close> is never
  null either. \<^verbatim>\<open>lineno\<close> is a C \<^verbatim>\<open>int\<close>; it counts newlines of a text whose offsets fit
  an \<^verbatim>\<open>int\<close>, so it is an unbounded integer here.
\<close>

record state =
  filename :: string
  lineno :: int
  input_text :: string
  pos :: int
  applied :: bool
  flags :: "parse_flag set"
  log :: sink
  out :: "event list"

definition emit :: "event \<Rightarrow> state \<Rightarrow> state" where
  "emit e s = s\<lparr>out := out s @ [e]\<rparr>"

text \<open>
  Modelled from the spec: \<^verbatim>\<open>grammar_error\<close> (declared in \<^verbatim>\<open>ast.h\<close>) reports a non-fatal
  diagnostic tagged with the file name and a line; parsing goes on. \<^verbatim>\<open>parse_error\<close> is
  the macro of \<^verbatim>\<open>parser.c\<close> that calls it with the state's file name and line.
\<close>

definition grammar_error :: "string \<Rightarrow> int \<Rightarrow> string \<Rightarrow> int list \<Rightarrow> state \<Rightarrow> state" where
  "grammar_error fname line format args s = emit (GrammarError fname line format args) s"

definition parse_error :: "state \<Rightarrow> string \<Rightarrow> int list \<Rightarrow> state" where
  "parse_error s format args = grammar_error (filename s) (lineno s) format args s"

text \<open>
  Reading \<^verbatim>\<open>text[i]\<close>: the characters of the text, then the terminating NUL. A read
  beyond the terminator is undefined in C; the model reads NUL there too.
\<close>

definition char_at :: "string \<Rightarrow> int \<Rightarrow> char" where
  "char_at t i = (if 0 \<le> i \<and> i < int (length t) then t ! nat i else CHR 0x00)"

section \<open>Cursor and literal matcher\<close>

text \<open>
  The loop of \<^verbatim>\<open>advance\<close>: \<^verbatim>\<open>for (int i=0; i<cnt; i++) if (state->pos[i] == '\n')
  state->lineno++\<close>. Its null test on \<^verbatim>\<open>state->pos\<close> never fires (see above).
\<close>

function advance_loop :: "int \<Rightarrow> int \<Rightarrow> state \<Rightarrow> state" where
  "advance_loop i cnt s =
     (if i < cnt
      then advance_loop (i + 1) cnt
             (if char_at (input_text s) (pos s + i) = CHR 0x0A
              then s\<lparr>lineno := lineno s + 1\<rparr> else s)
      else s)"
  by pat_completeness auto
termination
  by (relation "measure (\<lambda>(i, cnt, s). nat (cnt - i))") auto

declare advance_loop.simps [simp del]

definition advance :: "state \<Rightarrow> int \<Rightarrow> state" where
  "advance s cnt =
     (if cnt = 0 then s
      else let s1 = advance_loop 0 cnt s;
               s2 = s1\<lparr>pos := pos s1 + cnt\<rparr>
           in if PF_ADVANCE \<in> flags s2 then emit (TraceAdvance cnt) s2 else s2)"

text \<open>\<^verbatim>\<open>lex\<close> returns the matched length, or -1; it may write a trace line and a diagnostic.\<close>

definition lex_literal :: "literal \<Rightarrow> state \<Rightarrow> int \<times> state" where
  "lex_literal l s =
     (let offset = pos s;
          rc = re l (input_text s) offset;
          s1 = (if PF_MATCH \<in> flags s then emit (TraceMatch offset (pattern l) rc) s else s)
      in case rc of
           Some (m0, m1) \<Rightarrow>
             (m1 - m0,
              if m0 \<noteq> offset then parse_error s1 ''Skipped %d characters'' [m0 - offset] else s1)
         | None \<Rightarrow> (- 1, s1))"

definition emit_token :: "string \<Rightarrow> state \<Rightarrow> int \<Rightarrow> state" where
  "emit_token msg s len =
     (if PF_TOKEN \<in> flags s
      then emit (TraceToken msg (take (nat len) (drop (nat (pos s)) (input_text s)))) s
      else s)"

definition parse_literal :: "literal \<Rightarrow> state \<Rightarrow> state" where
  "parse_literal l s =
     (case lex_literal l s of (len, s1) \<Rightarrow>
        if len < 0 then s1\<lparr>applied := False\<rparr>
        else (advance (emit_token ''literal'' s1 len) len)\<lparr>applied := True\<rparr>)"

definition parse_any :: "match \<Rightarrow> state \<Rightarrow> state" where
  "parse_any m s = parse_literal (literal m) s"

section \<open>Lookahead\<close>

fun applies_loop :: "literal list \<Rightarrow> state \<Rightarrow> bool \<times> state" where
  "applies_loop [] s = (False, s)"
| "applies_loop (f # fs) s =
     (case lex_literal f s of (len, s1) \<Rightarrow>
        if len > 0 then (True, s1) else applies_loop fs s1)"

definition applies :: "match \<Rightarrow> state \<Rightarrow> bool \<times> state" where
  "applies m s = applies_loop (first m) s"

section \<open>Quantifier driver and dispatcher\<close>

text \<open>
  The dispatcher recurses through rule references and the loops of the quantifier
  driver need not end, so the recursive functions carry fuel: the fuel of a loop bounds
  the calls it makes, the fuel of the dispatcher bounds the depth of its recursion, and
  \<open>OutOfFuel\<close> is the run that did not return within the budget. \<open>Fatal\<close> is a run
  that dereferences a null pointer (an unresolved field, an empty grammar, a rule index
  outside the rule list). The tags \<^verbatim>\<open>quant\<close> and \<^verbatim>\<open>type\<close> are datatypes, so the \<^verbatim>\<open>default\<close>
  branches of the two switches, which report a tag outside the enumeration, have no
  counterpart.
\<close>

datatype outcome = OutOfFuel | Fatal | Ret state

definition and_then :: "outcome \<Rightarrow> (state \<Rightarrow> outcome) \<Rightarrow> outcome" where
  "and_then r k = (case r of Ret s \<Rightarrow> k s | OutOfFuel \<Rightarrow> OutOfFuel | Fatal \<Rightarrow> Fatal)"

text \<open>\<^verbatim>\<open>while (state->applied) (*func)(match, state);\<close>\<close>

fun plus_loop :: "(state \<Rightarrow> outcome) \<Rightarrow> nat \<Rightarrow> state \<Rightarrow> outcome" where
  "plus_loop f 0 s = (if applied s then OutOfFuel else Ret s)"
| "plus_loop f (Suc k) s = (if applied s then and_then (f s) (plus_loop f k) else Ret s)"

text \<open>\<^verbatim>\<open>while (applies(match, state)) (*func)(match, state);\<close>\<close>

fun star_loop :: "(match \<Rightarrow> state \<Rightarrow> outcome) \<Rightarrow> match \<Rightarrow> nat \<Rightarrow> state \<Rightarrow> outcome" where
  "star_loop func m 0 s =
     (case applies m s of (a, s1) \<Rightarrow> if a then OutOfFuel else Ret s1)"
| "star_loop func m (Suc k) s =
     (case applies m s of (a, s1) \<Rightarrow>
        if a then and_then (func m s1) (star_loop func m k) else Ret s1)"

definition set_applied :: "bool \<Rightarrow> state \<Rightarrow> outcome" where
  "set_applied b s = Ret (s\<lparr>applied := b\<rparr>)"

definition parse_quant_match ::
    "(match \<Rightarrow> state \<Rightarrow> outcome) \<Rightarrow> nat \<Rightarrow> match \<Rightarrow> state \<Rightarrow> outcome" where
  "parse_quant_match func k m s =
     (case quant m of
        Q_ONCE \<Rightarrow> func m s
      | Q_MAYBE \<Rightarrow>
          (case applies m s of (a, s1) \<Rightarrow>
             and_then (if a then func m s1 else Ret s1) (set_applied True))
      | Q_PLUS \<Rightarrow>
          and_then (func m s) (\<lambda>s1.
            let s2 = (if \<not> applied s1
                      then grammar_error (filename s1) (lineno s1) ''match did not apply'' [] s1
                      else s1)
            in and_then (plus_loop (func m) k s2) (set_applied True))
      | Q_STAR \<Rightarrow> and_then (star_loop func m k s) (set_applied True))"

definition rule_at :: "grammar \<Rightarrow> nat \<Rightarrow> rule option" where
  "rule_at G i = (if i < length (rules G) then Some (rules G ! i) else None)"

text \<open>
  The functions below call back into the dispatcher \<^verbatim>\<open>parse_match\<close>; each takes the
  dispatcher (with the fuel that is left) as its first argument \<open>pm\<close>, and
  \<open>parse_match\<close> ties the knot by recursion on the fuel.
\<close>

fun alternative_loop :: "(match \<Rightarrow> state \<Rightarrow> outcome) \<Rightarrow> match list \<Rightarrow> state \<Rightarrow> outcome" where
  "alternative_loop pm [] s = Ret s"
| "alternative_loop pm (p # ps) s =
     (case applies p s of (a, s1) \<Rightarrow>
        if a then and_then (pm p s1) (set_applied True)
        else alternative_loop pm ps s1)"

definition parse_alternative :: "(match \<Rightarrow> state \<Rightarrow> outcome) \<Rightarrow> match \<Rightarrow> state \<Rightarrow> outcome" where
  "parse_alternative pm m s = alternative_loop pm (matches m) (s\<lparr>applied := False\<rparr>)"

fun sequence_loop :: "(match \<Rightarrow> state \<Rightarrow> outcome) \<Rightarrow> match list \<Rightarrow> state \<Rightarrow> outcome" where
  "sequence_loop pm [] s = Ret s"
| "sequence_loop pm (p # ps) s =
     and_then (pm p s) (\<lambda>s1. if \<not> applied s1 then Ret s1 else sequence_loop pm ps s1)"

definition parse_sequence :: "(match \<Rightarrow> state \<Rightarrow> outcome) \<Rightarrow> match \<Rightarrow> state \<Rightarrow> outcome" where
  "parse_sequence pm m s = sequence_loop pm (matches m) (s\<lparr>applied := True\<rparr>)"

definition parse_field ::
    "grammar \<Rightarrow> (match \<Rightarrow> state \<Rightarrow> outcome) \<Rightarrow> match \<Rightarrow> state \<Rightarrow> outcome" where
  "parse_field G pm m s =
     (case find_field G (owner m) (field m) of
        None \<Rightarrow> Fatal
      | Some fm \<Rightarrow> pm fm s)"

definition parse_rule :: "(match \<Rightarrow> state \<Rightarrow> outcome) \<Rightarrow> rule \<Rightarrow> state \<Rightarrow> outcome" where
  "parse_rule pm r s =
     pm (rule_matches r) (if PF_RULE \<in> flags s then emit (TraceRule (rule_name r)) s else s)"

definition parse_rule_ref ::
    "grammar \<Rightarrow> (match \<Rightarrow> state \<Rightarrow> outcome) \<Rightarrow> match \<Rightarrow> state \<Rightarrow> outcome" where
  "parse_rule_ref G pm m s =
     (case rule_at G (rule m) of
        None \<Rightarrow> Fatal
      | Some r \<Rightarrow> parse_rule pm r s)"

primrec parse_match :: "grammar \<Rightarrow> nat \<Rightarrow> match \<Rightarrow> state \<Rightarrow> outcome" where
  "parse_match G 0 = (\<lambda>m s. OutOfFuel)"
| "parse_match G (Suc n) = (\<lambda>m s.
     case m of
       LITERAL q f l \<Rightarrow> Ret (parse_literal l s)
     | ANY q f l \<Rightarrow> Ret (parse_any m s)
     | FIELD q f ow fl \<Rightarrow> parse_field G (parse_match G n) m s
     | ALTERNATIVE q f ms \<Rightarrow> parse_quant_match (parse_alternative (parse_match G n)) n m s
     | SEQUENCE q f ms \<Rightarrow> parse_quant_match (parse_sequence (parse_match G n)) n m s
     | RULE_REF q f r \<Rightarrow> parse_quant_match (parse_rule_ref G (parse_match G n)) n m s
     | ABBREV_REF q f a \<Rightarrow> Ret (parse_literal (abbrev_literal a) s))"

text \<open>
  \<^verbatim>\<open>parse\<close>: a fresh state at line 1 and offset 0, the root rule, and the verdict. The
  C function returns nothing; its verdict is the line \<^verbatim>\<open>Parse failed\<close> on the error
  stream, the event \<open>ParseFailed\<close>. \<open>lg\<close> is the \<^verbatim>\<open>log\<close> argument, \<open>None\<close> for NULL.
\<close>

definition initial_state :: "string \<Rightarrow> string \<Rightarrow> sink option \<Rightarrow> parse_flag set \<Rightarrow> state" where
  "initial_state fname t lg fl =
     \<lparr>filename = fname, lineno = 1, input_text = t, pos = 0, applied = False,
      flags = (if fl \<noteq> PF_NONE \<and> lg \<noteq> None then fl else PF_NONE),
      log = (case lg of Some f \<Rightarrow> if fl \<noteq> PF_NONE then f else Stdout | None \<Rightarrow> Stdout),
      out = []\<rparr>"

definition parse ::
    "grammar \<Rightarrow> nat \<Rightarrow> string \<Rightarrow> string \<Rightarrow> sink option \<Rightarrow> parse_flag set \<Rightarrow> outcome" where
  "parse G fuel fname t lg fl =
     (let s0 = initial_state fname t lg fl;
          s1 = emit (PrintFlags (flags s0)) s0
      in case rules G of
           [] \<Rightarrow> Fatal
         | r # rs \<Rightarrow>
             and_then (parse_rule (parse_match G fuel) r s1) (\<lambda>s2.
               Ret (if \<not> applied s2 \<or> char_at (input_text s2) (pos s2) \<noteq> CHR 0x00
                    then emit ParseFailed s2 else s2)))"

section \<open>Notions used to state the properties\<close>

text \<open>The number of newline characters of a piece of text.\<close>

definition newlines :: "string \<Rightarrow> nat" where
  "newlines cs = length (filter (\<lambda>c. c = CHR 0x0A) cs)"

text \<open>
  The state after \<^verbatim>\<open>lex\<close> has tried each literal of a list in turn, and after the
  lookahead has been asked about each node of a list in turn.
\<close>

definition lex_each :: "literal list \<Rightarrow> state \<Rightarrow> state" where
  "lex_each fs s = foldl (\<lambda>s' f. snd (lex_literal f s')) s fs"

definition applies_each :: "match list \<Rightarrow> state \<Rightarrow> state" where
  "applies_each ps s = foldl (\<lambda>s' p. snd (applies p s')) s ps"

text \<open>
  The repetitions of the quantifier driver, told as the specification tells them.
  \<open>plus_repeat f s s'\<close>: starting after a call that left state \<open>s\<close>, keep calling \<open>f\<close>
  while each call reports applied; \<open>s'\<close> is the state after the first call that does
  not apply. \<open>star_repeat func m s s'\<close>: ask the lookahead before each call, and call
  while it says that the node could apply.
\<close>

inductive plus_repeat :: "(state \<Rightarrow> outcome) \<Rightarrow> state \<Rightarrow> state \<Rightarrow> bool" for f where
  plus_stop: "\<not> applied s \<Longrightarrow> plus_repeat f s s"
| plus_again: "applied s \<Longrightarrow> f s = Ret s1 \<Longrightarrow> plus_repeat f s1 s' \<Longrightarrow> plus_repeat f s s'"

inductive star_repeat ::
    "(match \<Rightarrow> state \<Rightarrow> outcome) \<Rightarrow> match \<Rightarrow> state \<Rightarrow> state \<Rightarrow> bool" for func m where
  star_stop: "applies m s = (False, s1) \<Longrightarrow> star_repeat func m s s1"
| star_again: "applies m s = (True, s1) \<Longrightarrow> func m s1 = Ret s2 \<Longrightarrow> star_repeat func m s2 s'
               \<Longrightarrow> star_repeat func m s s'"

text \<open>
  What PCRE guarantees of a match: it starts at or after the start offset and ends
  inside the subject. \<open>lits_of\<close> collects the literals that the dispatcher can consume
  for a node, \<open>grammar_lits\<close> those of a whole grammar. A C string has no NUL inside.
\<close>

definition lit_ok :: "literal \<Rightarrow> bool" where
  "lit_ok l = (\<forall>t off m0 m1. re l t off = Some (m0, m1) \<longrightarrow> off \<le> m0 \<and> m1 \<le> int (length t))"

fun lits_of :: "match \<Rightarrow> literal set" where
  "lits_of (LITERAL q f l) = {l}"
| "lits_of (ANY q f l) = {l}"
| "lits_of (FIELD q f ow fl) = {}"
| "lits_of (ALTERNATIVE q f ms) = (\<Union>m \<in> set ms. lits_of m)"
| "lits_of (SEQUENCE q f ms) = (\<Union>m \<in> set ms. lits_of m)"
| "lits_of (RULE_REF q f r) = {}"
| "lits_of (ABBREV_REF q f a) = {abbrev_literal a}"

definition grammar_lits :: "grammar \<Rightarrow> literal set" where
  "grammar_lits G =
     (\<Union>r \<in> set (rules G). lits_of (rule_matches r)) \<union>
     (\<Union>ow. \<Union>fl. case find_field G ow fl of None \<Rightarrow> {} | Some m \<Rightarrow> lits_of m)"

definition c_string :: "string \<Rightarrow> bool" where
  "c_string t = (CHR 0x00 \<notin> set t)"

definition preserves :: "(state \<Rightarrow> bool) \<Rightarrow> (state \<Rightarrow> outcome) \<Rightarrow> bool" where
  "preserves P f = (\<forall>s s'. P s \<longrightarrow> f s = Ret s' \<longrightarrow> P s')"

text \<open>
  The verdict of \<^verbatim>\<open>parse\<close>: the run returned and did not print \<^verbatim>\<open>Parse failed\<close>.
\<close>

definition parse_succeeded :: "outcome \<Rightarrow> bool" where
  "parse_succeeded r = (case r of Ret s \<Rightarrow> ParseFailed \<notin> set (out s) | OutOfFuel \<Rightarrow> False | Fatal \<Rightarrow> False)"

text \<open>
  Invariants of a run over the text \<open>t\<close>. \<open>line_inv\<close>: the line counter is one more than
  the number of newlines before the cursor. \<open>bound_inv\<close>: the cursor is inside the text
  and the verdict has not been printed. \<open>stable L P\<close>: the steps of the dispatcher keep
  \<open>P\<close>, namely consuming a literal of \<open>L\<close>, setting the applied flag and writing events
  other than the verdict.
\<close>

definition line_inv :: "string \<Rightarrow> state \<Rightarrow> bool" where
  "line_inv t s =
     (input_text s = t \<and> 0 \<le> pos s \<and> lineno s = 1 + int (newlines (take (nat (pos s)) t)))"

definition bound_inv :: "string \<Rightarrow> state \<Rightarrow> bool" where
  "bound_inv t s =
     (input_text s = t \<and> 0 \<le> pos s \<and> pos s \<le> int (length t) \<and> ParseFailed \<notin> set (out s))"

definition stable :: "literal set \<Rightarrow> (state \<Rightarrow> bool) \<Rightarrow> bool" where
  "stable L P =
     ((\<forall>l\<in>L. \<forall>s. P s \<longrightarrow> P (parse_literal l s)) \<and>
      (\<forall>s b. P s \<longrightarrow> P (s\<lparr>applied := b\<rparr>)) \<and>
      (\<forall>s es. P s \<longrightarrow> ParseFailed \<notin> set es \<longrightarrow> P (s\<lparr>out := out s @ es\<rparr>)))"

text \<open>
  \<open>below r r'\<close>: the outcome \<open>r'\<close> of a run with more fuel agrees with the outcome \<open>r\<close> of
  a run with less, unless the latter ran out of fuel.
\<close>

definition below :: "outcome \<Rightarrow> outcome \<Rightarrow> bool" where
  "below r r' = (r = OutOfFuel \<or> r = r')"

section \<open>Sample patterns and grammars\<close>

text \<open>
  Two compiled patterns to run the parser on: \<open>str_re p\<close> matches the fixed string \<open>p\<close>,
  \<open>run_re c\<close> matches the longest run of the character \<open>c\<close>, which may be empty (the
  pattern \<^verbatim>\<open>c*\<close>). Both are anchored at the start offset.
\<close>

definition str_re :: "string \<Rightarrow> string \<Rightarrow> int \<Rightarrow> (int \<times> int) option" where
  "str_re p t off =
     (if 0 \<le> off \<and> off \<le> int (length t) \<and> take (length p) (drop (nat off) t) = p
      then Some (off, off + int (length p)) else None)"

definition run_re :: "char \<Rightarrow> string \<Rightarrow> int \<Rightarrow> (int \<times> int) option" where
  "run_re c t off =
     (if 0 \<le> off \<and> off \<le> int (length t)
      then Some (off, off + int (length (takeWhile (\<lambda>x. x = c) (drop (nat off) t))))
      else None)"

definition lit :: "string \<Rightarrow> literal" where
  "lit p = \<lparr>pattern = p, re = str_re p\<rparr>"

definition run_lit :: "char \<Rightarrow> literal" where
  "run_lit c = \<lparr>pattern = [c, CHR ''*''], re = run_re c\<rparr>"

definition one_rule :: "match \<Rightarrow> grammar" where
  "one_rule m = \<lparr>rules = [Rule ''root'' m], find_field = (\<lambda>ow fl. None)\<rparr>"

definition at_start :: "string \<Rightarrow> state" where
  "at_start t = initial_state ''input'' t None PF_NONE"

text \<open>Nodes over these patterns, and a state at the start of a text.\<close>

definition a_node :: match where
  "a_node = LITERAL Q_ONCE [lit ''a''] (lit ''a'')"

definition star_a :: match where
  "star_a = SEQUENCE Q_STAR [lit ''a''] [a_node]"

definition plus_a :: match where
  "plus_a = SEQUENCE Q_PLUS [lit ''a''] [a_node]"

definition blank_node :: match where
  "blank_node = SEQUENCE Q_STAR [run_lit CHR '' ''] [LITERAL Q_ONCE [] (run_lit CHR '' '')]"

definition b_node :: match where
  "b_node = LITERAL Q_ONCE [lit ''b''] (lit ''b'')"

text \<open>
  Two branches that start with the same literal, an alternative of both, and a sequence
  whose first element is a Plus-quantified node.
\<close>

definition a_then_x :: match where
  "a_then_x = SEQUENCE Q_ONCE [lit ''a''] [a_node, LITERAL Q_ONCE [lit ''x''] (lit ''x'')]"

definition a_then_b :: match where
  "a_then_b = SEQUENCE Q_ONCE [lit ''a''] [a_node, b_node]"

definition either :: match where
  "either = ALTERNATIVE Q_ONCE [lit ''a''] [a_then_x, a_then_b]"

definition plus_a_then_b :: match where
  "plus_a_then_b = SEQUENCE Q_ONCE [] [plus_a, b_node]"

text \<open>The sequence of the two literals \<^verbatim>\<open>ab\n\<close> and \<^verbatim>\<open>cd\<close>.\<close>

definition two_lines :: match where
  "two_lines = SEQUENCE Q_ONCE []
     [LITERAL Q_ONCE [] (lit ''ab\<newline>''), LITERAL Q_ONCE [] (lit ''cd'')]"

section \<open>Frame lemmas\<close>

lemma emit_frame [simp]:
  "filename (emit e s) = filename s" "lineno (emit e s) = lineno s"
  "input_text (emit e s) = input_text s" "pos (emit e s) = pos s"
  "applied (emit e s) = applied s" "flags (emit e s) = flags s" "log (emit e s) = log s"
  "out (emit e s) = out s @ [e]"
  by (simp_all add: emit_def)

lemma lex_literal_frame:
  "filename (snd (lex_literal l s)) = filename s"
  "lineno (snd (lex_literal l s)) = lineno s"
  "input_text (snd (lex_literal l s)) = input_text s"
  "pos (snd (lex_literal l s)) = pos s"
  "applied (snd (lex_literal l s)) = applied s"
  "flags (snd (lex_literal l s)) = flags s"
  "log (snd (lex_literal l s)) = log s"
  by (simp_all add: lex_literal_def parse_error_def grammar_error_def Let_def split: option.splits)

lemma lex_literal_length:
  "fst (lex_literal l s) =
     (case re l (input_text s) (pos s) of Some (m0, m1) \<Rightarrow> m1 - m0 | None \<Rightarrow> - 1)"
  by (simp add: lex_literal_def Let_def split: option.splits)

lemma applies_loop_frame:
  "filename (snd (applies_loop fs s)) = filename s \<and>
   lineno (snd (applies_loop fs s)) = lineno s \<and>
   input_text (snd (applies_loop fs s)) = input_text s \<and>
   pos (snd (applies_loop fs s)) = pos s \<and>
   applied (snd (applies_loop fs s)) = applied s \<and>
   flags (snd (applies_loop fs s)) = flags s \<and>
   log (snd (applies_loop fs s)) = log s"
proof (induction fs arbitrary: s)
  case Nil
  show ?case by simp
next
  case (Cons f fs)
  obtain len s1 where l: "lex_literal f s = (len, s1)" by (cases "lex_literal f s")
  have fr: "filename s1 = filename s" "lineno s1 = lineno s" "input_text s1 = input_text s"
    "pos s1 = pos s" "applied s1 = applied s" "flags s1 = flags s" "log s1 = log s"
    using lex_literal_frame [of f s] l by simp_all
  show ?case
  proof (cases "len > 0")
    case True
    then show ?thesis using l fr by simp
  next
    case False
    then show ?thesis using l fr Cons.IH [of s1] by simp
  qed
qed

lemma advance_loop_frame:
  "filename (advance_loop i cnt s) = filename s \<and>
   input_text (advance_loop i cnt s) = input_text s \<and>
   pos (advance_loop i cnt s) = pos s \<and>
   applied (advance_loop i cnt s) = applied s \<and>
   flags (advance_loop i cnt s) = flags s \<and>
   log (advance_loop i cnt s) = log s \<and>
   out (advance_loop i cnt s) = out s"
proof (induction i cnt s rule: advance_loop.induct)
  case (1 i cnt s)
  show ?case
  proof (cases "i < cnt")
    case True
    then show ?thesis using 1 by (subst (1 2 3 4 5 6 7) advance_loop.simps) simp
  next
    case False
    then show ?thesis by (simp add: advance_loop.simps)
  qed
qed


lemma advance_loop_lineno:
  "0 \<le> pos s + i \<Longrightarrow>
   lineno (advance_loop i cnt s) =
     lineno s + int (newlines (take (nat (cnt - i)) (drop (nat (pos s + i)) (input_text s))))"
proof (induction i cnt s rule: advance_loop.induct)
  case (1 i cnt s)
  show ?case
  proof (cases "i < cnt")
    case False
    then show ?thesis by (simp add: advance_loop.simps newlines_def)
  next
    case True
    let ?t = "input_text s"
    let ?j = "nat (pos s + i)"
    let ?s' = "if char_at ?t (pos s + i) = CHR 0x0A then s\<lparr>lineno := lineno s + 1\<rparr> else s"
    have fr: "pos ?s' = pos s" "input_text ?s' = ?t" by simp_all
    have ih: "lineno (advance_loop (i + 1) cnt ?s') =
        lineno ?s' + int (newlines (take (nat (cnt - (i + 1))) (drop (nat (pos s + (i + 1))) ?t)))"
      using "1.IH" [OF True] "1.prems" fr by simp
    have unfold: "advance_loop i cnt s = advance_loop (i + 1) cnt ?s'"
      using True by (subst advance_loop.simps) simp
    have n1: "nat (cnt - i) = Suc (nat (cnt - (i + 1)))" using True by simp
    have j1: "nat (pos s + (i + 1)) = Suc ?j" using "1.prems" by simp
    show ?thesis
    proof (cases "?j < length ?t")
      case inr: True
      have d: "drop ?j ?t = (?t ! ?j) # drop (Suc ?j) ?t"
        using inr by (simp add: Cons_nth_drop_Suc)
      have "pos s + i < int (length ?t)" using inr "1.prems" by linarith
      then have c: "char_at ?t (pos s + i) = ?t ! ?j"
        using "1.prems" by (simp add: char_at_def)
      show ?thesis
        unfolding unfold ih n1 j1 d using c by (simp add: newlines_def)
    next
      case outr: False
      have "\<not> pos s + i < int (length ?t)" using outr "1.prems" by linarith
      then have c: "char_at ?t (pos s + i) = CHR 0x00"
        by (simp add: char_at_def)
      show ?thesis
        unfolding unfold ih n1 j1 using c outr by (simp add: newlines_def)
    qed
  qed
qed


lemma applies_frame:
  "filename (snd (applies m s)) = filename s"
  "lineno (snd (applies m s)) = lineno s"
  "input_text (snd (applies m s)) = input_text s"
  "pos (snd (applies m s)) = pos s"
  "applied (snd (applies m s)) = applied s"
  "flags (snd (applies m s)) = flags s"
  "log (snd (applies m s)) = log s"
  using applies_loop_frame [of "first m" s] by (simp_all add: applies_def)

lemma emit_token_frame:
  "filename (emit_token msg s len) = filename s"
  "lineno (emit_token msg s len) = lineno s"
  "input_text (emit_token msg s len) = input_text s"
  "pos (emit_token msg s len) = pos s"
  "applied (emit_token msg s len) = applied s"
  "flags (emit_token msg s len) = flags s"
  "log (emit_token msg s len) = log s"
  by (simp_all add: emit_token_def)

lemma advance_pos: "pos (advance s cnt) = pos s + cnt"
  using advance_loop_frame [of 0 cnt s] by (simp add: advance_def Let_def)

lemma advance_text: "input_text (advance s cnt) = input_text s"
  using advance_loop_frame [of 0 cnt s] by (simp add: advance_def Let_def)

lemma advance_lineno:
  assumes "0 \<le> pos s"
  shows "lineno (advance s cnt) =
           lineno s + int (newlines (take (nat cnt) (drop (nat (pos s)) (input_text s))))"
proof (cases "cnt = 0")
  case True
  then show ?thesis by (simp add: advance_def newlines_def)
next
  case False
  have "lineno (advance s cnt) = lineno (advance_loop 0 cnt s)"
    using False advance_loop_frame [of 0 cnt s] by (simp add: advance_def Let_def)
  also have "\<dots> = lineno s + int (newlines (take (nat (cnt - 0)) (drop (nat (pos s + 0)) (input_text s))))"
    using assms by (intro advance_loop_lineno) simp
  finally show ?thesis by simp
qed

section \<open>Lookahead and literal dispatch\<close>

text \<open>
  C6. For every node and every state, the lookahead predicate \<^verbatim>\<open>applies\<close> leaves the
  cursor as it found it: same offset, same line number, same text and same applied
  flag. It can only write trace lines and diagnostics.
\<close>

theorem applies_leaves_cursor:
  "pos (snd (applies m s)) = pos s \<and> lineno (snd (applies m s)) = lineno s \<and>
   input_text (snd (applies m s)) = input_text s \<and> applied (snd (applies m s)) = applied s"
  by (simp add: applies_frame)

text \<open>
  C7. A LITERAL node is dispatched to \<^verbatim>\<open>parse_literal\<close>. When \<^verbatim>\<open>lex\<close> fails (a negative
  length) the applied flag is cleared and offset and line stay as they were; when it
  succeeds the applied flag is set and the offset grows by exactly the matched length.
\<close>

theorem parse_literal_cursor:
  "parse_match G (Suc n) (LITERAL q f l) s = Ret (parse_literal l s) \<and>
   (if fst (lex_literal l s) < 0
    then \<not> applied (parse_literal l s) \<and> pos (parse_literal l s) = pos s \<and>
         lineno (parse_literal l s) = lineno s
    else applied (parse_literal l s) \<and> pos (parse_literal l s) = pos s + fst (lex_literal l s))"
proof -
  obtain len s1 where l: "lex_literal l s = (len, s1)" by (cases "lex_literal l s")
  have fr: "pos s1 = pos s" "lineno s1 = lineno s"
    using lex_literal_frame [of l s] l by simp_all
  show ?thesis
    using l fr by (simp add: parse_literal_def advance_pos emit_token_frame)
qed

text \<open>
  C9. LITERAL, ANY and ABBREV_REF nodes are dispatched straight to the literal matcher
  \<^verbatim>\<open>parse_literal\<close>, on the node's own literal or on the literal of its abbreviation, and
  never through the quantifier driver. The dispatcher never looks at their quantifier
  (nor at their first-set): two such nodes that differ only there give the same
  outcome, whatever the fuel.
\<close>

theorem literal_dispatch_ignores_quant:
  "parse_match G (Suc n) (LITERAL q f l) s = Ret (parse_literal l s) \<and>
   parse_match G (Suc n) (ANY q f l) s = Ret (parse_literal l s) \<and>
   parse_match G (Suc n) (ABBREV_REF q f a) s = Ret (parse_literal (abbrev_literal a) s) \<and>
   parse_match G k (LITERAL q f l) s = parse_match G k (LITERAL q' f' l) s \<and>
   parse_match G k (ANY q f l) s = parse_match G k (ANY q' f' l) s \<and>
   parse_match G k (ABBREV_REF q f a) s = parse_match G k (ABBREV_REF q' f' a) s"
proof (intro conjI)
  show "parse_match G (Suc n) (LITERAL q f l) s = Ret (parse_literal l s)" by simp
  show "parse_match G (Suc n) (ANY q f l) s = Ret (parse_literal l s)"
    by (simp add: parse_any_def)
  show "parse_match G (Suc n) (ABBREV_REF q f a) s = Ret (parse_literal (abbrev_literal a) s)"
    by simp
  show "parse_match G k (LITERAL q f l) s = parse_match G k (LITERAL q' f' l) s"
    by (cases k) simp_all
  show "parse_match G k (ANY q f l) s = parse_match G k (ANY q' f' l) s"
    by (cases k) (simp_all add: parse_any_def)
  show "parse_match G k (ABBREV_REF q f a) s = parse_match G k (ABBREV_REF q' f' a) s"
    by (cases k) simp_all
qed

section \<open>The lookahead predicate\<close>

lemma lex_literal_same_cursor:
  "input_text s' = input_text s \<Longrightarrow> pos s' = pos s \<Longrightarrow>
   fst (lex_literal l s') = fst (lex_literal l s)"
  by (simp add: lex_literal_length)

lemma lex_each_Cons: "lex_each (f # fs) s = lex_each fs (snd (lex_literal f s))"
  by (simp add: lex_each_def)

lemma lex_each_Nil: "lex_each [] s = s"
  by (simp add: lex_each_def)

lemma lex_each_snoc: "lex_each (fs @ [f]) s = snd (lex_literal f (lex_each fs s))"
  by (simp add: lex_each_def)

lemma applies_loop_none:
  "\<forall>f\<in>set fs. \<not> 0 < fst (lex_literal f s) \<Longrightarrow> applies_loop fs s = (False, lex_each fs s)"
proof (induction fs arbitrary: s)
  case Nil
  show ?case by (simp add: lex_each_Nil)
next
  case (Cons f fs)
  obtain len s1 where l: "lex_literal f s = (len, s1)" by (cases "lex_literal f s")
  have same: "input_text s1 = input_text s" "pos s1 = pos s"
    using lex_literal_frame [of f s] l by simp_all
  have "\<forall>g\<in>set fs. \<not> 0 < fst (lex_literal g s1)"
    using Cons.prems lex_literal_same_cursor [OF same] by simp
  then have "applies_loop fs s1 = (False, lex_each fs s1)" by (rule Cons.IH)
  moreover have "\<not> 0 < len" using Cons.prems l by simp
  ultimately show ?case using l by (simp add: lex_each_Cons)
qed

lemma applies_loop_first:
  "\<forall>f\<in>set pre. \<not> 0 < fst (lex_literal f s) \<Longrightarrow> 0 < fst (lex_literal l s) \<Longrightarrow>
   applies_loop (pre @ l # post) s = (True, lex_each (pre @ [l]) s)"
proof (induction pre arbitrary: s)
  case Nil
  obtain len s1 where l: "lex_literal l s = (len, s1)" by (cases "lex_literal l s")
  then show ?case using Nil by (simp add: lex_each_Cons lex_each_Nil)
next
  case (Cons f pre)
  obtain len s1 where l: "lex_literal f s = (len, s1)" by (cases "lex_literal f s")
  have same: "input_text s1 = input_text s" "pos s1 = pos s"
    using lex_literal_frame [of f s] l by simp_all
  have a: "\<forall>g\<in>set pre. \<not> 0 < fst (lex_literal g s1)"
    using Cons.prems(1) lex_literal_same_cursor [OF same] by simp
  have b: "0 < fst (lex_literal l s1)"
    using Cons.prems(2) lex_literal_same_cursor [OF same] by simp
  have "applies_loop (pre @ l # post) s1 = (True, lex_each (pre @ [l]) s1)"
    using a b by (rule Cons.IH)
  moreover have "\<not> 0 < len" using Cons.prems(1) l by simp
  ultimately show ?case using l by (simp add: lex_each_Cons)
qed

lemma applies_loop_iff:
  "fst (applies_loop fs s) \<longleftrightarrow> (\<exists>l\<in>set fs. 0 < fst (lex_literal l s))"
proof (cases "\<exists>l\<in>set fs. 0 < fst (lex_literal l s)")
  case False
  then show ?thesis using applies_loop_none [of fs s] by simp
next
  case True
  then obtain pre l post where
      "fs = pre @ l # post" "0 < fst (lex_literal l s)" "\<forall>f\<in>set pre. \<not> 0 < fst (lex_literal f s)"
    using split_list_first_prop [of fs "\<lambda>l. 0 < fst (lex_literal l s)"] by blast
  then show ?thesis using True applies_loop_first [of pre s l post] by simp
qed

text \<open>
  C5, as the code has it. The lookahead predicate is true exactly when some literal of
  the first-set has a match of positive length at the cursor: it uses \<^verbatim>\<open>lex(...) > 0\<close>, so
  a literal that matches the empty string there does not count. It stops at the first
  such literal, having tried the ones before it, and tries them all when there is none.
\<close>

theorem applies_iff_nonempty_match:
  "(fst (applies m s) \<longleftrightarrow> (\<exists>l\<in>set (first m). 0 < fst (lex_literal l s))) \<and>
   (\<forall>pre l post.
      first m = pre @ l # post \<and> (\<forall>f\<in>set pre. \<not> 0 < fst (lex_literal f s)) \<and>
      0 < fst (lex_literal l s) \<longrightarrow> applies m s = (True, lex_each (pre @ [l]) s)) \<and>
   ((\<forall>f\<in>set (first m). \<not> 0 < fst (lex_literal f s)) \<longrightarrow>
      applies m s = (False, lex_each (first m) s))"
  using applies_loop_iff [of "first m" s] applies_loop_first [of _ s] applies_loop_none [of "first m" s]
  by (simp add: applies_def)

lemma sample_simps:
  "at_start t = \<lparr>filename = ''input'', lineno = 1, input_text = t, pos = 0, applied = False,
      flags = {}, log = Stdout, out = []\<rparr>"
  by (simp add: at_start_def initial_state_def PF_NONE_def)

text \<open>
  C5 as stated fails on an empty match: the first-set of \<open>blank_node\<close> holds the pattern
  of a run of blanks, which matches at offset 0 of the text \<^verbatim>\<open>x\<close> with length 0 (\<^verbatim>\<open>lex\<close>
  returns 0, not -1), and yet the predicate is false.
\<close>

theorem applies_empty_match_counterexample:
  "first blank_node = [run_lit CHR '' ''] \<and>
   re (run_lit CHR '' '') (input_text (at_start ''x'')) (pos (at_start ''x'')) = Some (0, 0) \<and>
   fst (lex_literal (run_lit CHR '' '') (at_start ''x'')) = 0 \<and>
   fst (applies blank_node (at_start ''x'')) = False"
  by (simp add: blank_node_def sample_simps run_lit_def run_re_def lex_literal_def applies_def)

theorem applies_iff_nonempty_match_witness:
  "first blank_node = [] @ run_lit CHR '' '' # [] \<and>
   0 < fst (lex_literal (run_lit CHR '' '') (at_start '' x'')) \<and>
   applies blank_node (at_start '' x'') = (True, at_start '' x'') \<and>
   \<not> fst (applies blank_node (at_start ''x''))"
proof -
  have f: "first blank_node = [] @ run_lit CHR '' '' # []" by (simp add: blank_node_def)
  have p: "0 < fst (lex_literal (run_lit CHR '' '') (at_start '' x''))"
    by (simp add: sample_simps run_lit_def run_re_def lex_literal_def)
  have n: "\<forall>f\<in>set (first blank_node). \<not> 0 < fst (lex_literal f (at_start ''x''))"
    by (simp add: blank_node_def sample_simps run_lit_def run_re_def lex_literal_def)
  have "applies blank_node (at_start '' x'') = (True, lex_each ([] @ [run_lit CHR '' '']) (at_start '' x''))"
    using applies_iff_nonempty_match [of blank_node "at_start '' x''", THEN conjunct2, THEN conjunct1,
        THEN spec, THEN spec, THEN spec, of "[]" "run_lit CHR '' ''" "[]"] f p
    by simp
  moreover have "lex_each ([] @ [run_lit CHR '' '']) (at_start '' x'') = at_start '' x''"
    by (simp add: lex_each_def sample_simps run_lit_def run_re_def lex_literal_def)
  moreover have "\<not> fst (applies blank_node (at_start ''x''))"
    using applies_iff_nonempty_match [of blank_node "at_start ''x''", THEN conjunct1] n by simp
  ultimately show ?thesis using f p by simp
qed

section \<open>Sequencing outcomes\<close>

lemma and_then_simps [simp]:
  "and_then (Ret s) k = k s" "and_then OutOfFuel k = OutOfFuel" "and_then Fatal k = Fatal"
  by (simp_all add: and_then_def)

lemma and_then_Ret_iff: "and_then r k = Ret s' \<longleftrightarrow> (\<exists>s1. r = Ret s1 \<and> k s1 = Ret s')"
  by (cases r) simp_all

section \<open>More fuel never changes a result\<close>

lemma below_refl: "below r r"
  by (simp add: below_def)

lemma below_Ret: "below r r' \<Longrightarrow> r = Ret s \<Longrightarrow> r' = Ret s"
  by (auto simp: below_def)

lemma below_and_then:
  assumes "below r r'" and "\<And>s. below (k s) (k' s)"
  shows "below (and_then r k) (and_then r' k')"
proof (cases r)
  case OutOfFuel
  then show ?thesis by (simp add: below_def)
next
  case Fatal
  then show ?thesis using assms(1) by (simp add: below_def)
next
  case (Ret s)
  then have "r' = Ret s" using assms(1) by (simp add: below_def)
  then show ?thesis using Ret assms(2) by simp
qed

lemma below_plus_loop:
  assumes "\<And>s. below (f s) (f' s)" and "k \<le> k'"
  shows "below (plus_loop f k s) (plus_loop f' k' s)"
  using assms(2)
proof (induction k arbitrary: k' s)
  case 0
  show ?case by (cases k') (simp_all add: below_def)
next
  case (Suc k)
  then obtain j where j: "k' = Suc j" "k \<le> j" by (cases k') auto
  have "below (and_then (f s) (plus_loop f k)) (and_then (f' s) (plus_loop f' j))"
    using assms(1) Suc.IH [OF j(2)] by (intro below_and_then)
  then show ?case using j(1) by (simp add: below_refl)
qed

lemma below_star_loop:
  assumes "\<And>s. below (func m s) (func' m s)" and "k \<le> k'"
  shows "below (star_loop func m k s) (star_loop func' m k' s)"
  using assms(2)
proof (induction k arbitrary: k' s)
  case 0
  obtain a s1 where "applies m s = (a, s1)" by (cases "applies m s")
  then show ?case by (cases k') (simp_all add: below_def)
next
  case (Suc k)
  then obtain j where j: "k' = Suc j" "k \<le> j" by (cases k') auto
  obtain a s1 where a: "applies m s = (a, s1)" by (cases "applies m s")
  have "below (and_then (func m s1) (star_loop func m k)) (and_then (func' m s1) (star_loop func' m j))"
    using assms(1) Suc.IH [OF j(2)] by (intro below_and_then)
  then show ?case using j(1) a by (simp add: below_refl)
qed

lemma below_quant_match:
  assumes "\<And>s. below (func m s) (func' m s)" and "k \<le> k'"
  shows "below (parse_quant_match func k m s) (parse_quant_match func' k' m s)"
proof (cases "quant m")
  case Q_ONCE
  then show ?thesis using assms(1) by (simp add: parse_quant_match_def)
next
  case Q_MAYBE
  obtain a s1 where a: "applies m s = (a, s1)" by (cases "applies m s")
  have "below (and_then (if a then func m s1 else Ret s1) (set_applied True))
              (and_then (if a then func' m s1 else Ret s1) (set_applied True))"
    using assms(1) by (intro below_and_then) (simp_all add: below_refl)
  then show ?thesis using Q_MAYBE a by (simp add: parse_quant_match_def)
next
  case Q_PLUS
  have "below (and_then (plus_loop (func m) k s2) (set_applied True))
              (and_then (plus_loop (func' m) k' s2) (set_applied True))" for s2
    using assms by (intro below_and_then below_plus_loop) (simp_all add: below_refl)
  then show ?thesis
    using Q_PLUS assms(1) unfolding parse_quant_match_def Let_def
    by (simp add: below_and_then)
next
  case Q_STAR
  have "below (and_then (star_loop func m k s) (set_applied True))
              (and_then (star_loop func' m k' s) (set_applied True))"
    using assms by (intro below_and_then below_star_loop) (simp_all add: below_refl)
  then show ?thesis using Q_STAR by (simp add: parse_quant_match_def)
qed

lemma below_alternative_loop:
  assumes "\<And>p s. below (pm p s) (pm' p s)"
  shows "below (alternative_loop pm ps s) (alternative_loop pm' ps s)"
proof (induction ps arbitrary: s)
  case Nil
  show ?case by (simp add: below_refl)
next
  case (Cons p ps)
  obtain a s1 where a: "applies p s = (a, s1)" by (cases "applies p s")
  have "below (and_then (pm p s1) (set_applied True)) (and_then (pm' p s1) (set_applied True))"
    using assms by (intro below_and_then) (simp_all add: below_refl)
  then show ?case using a Cons.IH by simp
qed

lemma below_sequence_loop:
  assumes "\<And>p s. below (pm p s) (pm' p s)"
  shows "below (sequence_loop pm ps s) (sequence_loop pm' ps s)"
proof (induction ps arbitrary: s)
  case Nil
  show ?case by (simp add: below_refl)
next
  case (Cons p ps)
  have "below (and_then (pm p s) (\<lambda>s1. if \<not> applied s1 then Ret s1 else sequence_loop pm ps s1))
              (and_then (pm' p s) (\<lambda>s1. if \<not> applied s1 then Ret s1 else sequence_loop pm' ps s1))"
    using assms Cons.IH by (intro below_and_then) (simp_all add: below_refl)
  then show ?case by simp
qed

lemma below_parse_match:
  "n \<le> n' \<Longrightarrow> below (parse_match G n m s) (parse_match G n' m s)"
proof (induction n arbitrary: n' m s)
  case 0
  show ?case by (simp add: below_def)
next
  case (Suc n)
  then obtain j where j: "n' = Suc j" "n \<le> j" by (cases n') auto
  have ih: "below (parse_match G n p t) (parse_match G j p t)" for p t
    using j(2) by (rule Suc.IH)
  show ?case
  proof (cases m)
    case (FIELD q f ow fl)
    then show ?thesis using j(1) ih
      by (simp add: parse_field_def below_refl split: option.splits)
  next
    case (ALTERNATIVE q f ms)
    have "below (parse_alternative (parse_match G n) m t) (parse_alternative (parse_match G j) m t)" for t
      unfolding parse_alternative_def using ih by (rule below_alternative_loop)
    then have "below (parse_quant_match (parse_alternative (parse_match G n)) n m s)
                     (parse_quant_match (parse_alternative (parse_match G j)) j m s)"
      using j(2) by (rule below_quant_match)
    then show ?thesis using ALTERNATIVE j(1) by simp
  next
    case (SEQUENCE q f ms)
    have "below (parse_sequence (parse_match G n) m t) (parse_sequence (parse_match G j) m t)" for t
      unfolding parse_sequence_def using ih by (rule below_sequence_loop)
    then have "below (parse_quant_match (parse_sequence (parse_match G n)) n m s)
                     (parse_quant_match (parse_sequence (parse_match G j)) j m s)"
      using j(2) by (rule below_quant_match)
    then show ?thesis using SEQUENCE j(1) by simp
  next
    case (RULE_REF q f r)
    have "below (parse_rule_ref G (parse_match G n) m t) (parse_rule_ref G (parse_match G j) m t)" for t
      using ih by (simp add: parse_rule_ref_def parse_rule_def below_refl split: option.splits)
    then have "below (parse_quant_match (parse_rule_ref G (parse_match G n)) n m s)
                     (parse_quant_match (parse_rule_ref G (parse_match G j)) j m s)"
      using j(2) by (rule below_quant_match)
    then show ?thesis using RULE_REF j(1) by simp
  qed (simp_all add: j(1) below_refl)
qed

lemma parse_match_more_fuel:
  "parse_match G n m s = Ret s' \<Longrightarrow> n \<le> n' \<Longrightarrow> parse_match G n' m s = Ret s'"
  using below_parse_match [of n n' G m s] below_Ret by blast

lemma parse_more_fuel:
  assumes "parse G n fname t lg fl = Ret s'" and "n \<le> n'"
  shows "parse G n' fname t lg fl = Ret s'"
proof -
  let ?k = "\<lambda>s2. Ret (if \<not> applied s2 \<or> char_at (input_text s2) (pos s2) \<noteq> CHR 0x00
                       then emit ParseFailed s2 else s2)"
  have "below (parse G n fname t lg fl) (parse G n' fname t lg fl)"
  proof (cases "rules G")
    case Nil
    then show ?thesis by (simp add: parse_def below_refl)
  next
    case (Cons r rs)
    have "below (and_then (parse_rule (parse_match G n) r s1) ?k)
                (and_then (parse_rule (parse_match G n') r s1) ?k)" for s1
      using below_parse_match [OF assms(2)]
      by (intro below_and_then) (simp_all add: parse_rule_def below_refl)
    then show ?thesis using Cons by (simp add: parse_def Let_def)
  qed
  then show ?thesis using assms(1) below_Ret by blast
qed

section \<open>The repetitions of the quantifier driver\<close>

lemma plus_loop_repeat:
  "plus_loop f k s = Ret s' \<Longrightarrow> plus_repeat f s s'"
proof (induction k arbitrary: s)
  case 0
  then show ?case by (auto split: if_splits intro: plus_stop)
next
  case (Suc k)
  show ?case
  proof (cases "applied s")
    case False
    then show ?thesis using Suc.prems by (auto intro: plus_stop)
  next
    case True
    then obtain s1 where "f s = Ret s1" "plus_loop f k s1 = Ret s'"
      using Suc.prems by (auto simp: and_then_Ret_iff)
    then show ?thesis using True Suc.IH by (blast intro: plus_again)
  qed
qed

lemma plus_repeat_loop:
  "plus_repeat f s s' \<Longrightarrow> \<exists>k. plus_loop f k s = Ret s'"
proof (induction rule: plus_repeat.induct)
  case (plus_stop s)
  then have "plus_loop f 0 s = Ret s" by simp
  then show ?case by blast
next
  case (plus_again s s1 s')
  then obtain k where "plus_loop f k s1 = Ret s'" by blast
  then have "plus_loop f (Suc k) s = Ret s'" using plus_again.hyps by simp
  then show ?case by blast
qed

lemma plus_repeat_stops: "plus_repeat f s s' \<Longrightarrow> \<not> applied s'"
  by (induction rule: plus_repeat.induct) simp_all

lemma star_loop_repeat:
  "star_loop func m k s = Ret s' \<Longrightarrow> star_repeat func m s s'"
proof (induction k arbitrary: s)
  case 0
  obtain a s1 where a: "applies m s = (a, s1)" by (cases "applies m s")
  then show ?case using 0 by (auto split: if_splits intro: star_stop)
next
  case (Suc k)
  obtain a s1 where a: "applies m s = (a, s1)" by (cases "applies m s")
  show ?case
  proof (cases a)
    case False
    then show ?thesis using Suc.prems a by (auto intro: star_stop)
  next
    case True
    then obtain s2 where "func m s1 = Ret s2" "star_loop func m k s2 = Ret s'"
      using Suc.prems a by (auto simp: and_then_Ret_iff)
    moreover have "applies m s = (True, s1)" using a True by simp
    ultimately show ?thesis using Suc.IH [of s2] by (blast intro: star_again)
  qed
qed

lemma star_repeat_loop:
  "star_repeat func m s s' \<Longrightarrow> \<exists>k. star_loop func m k s = Ret s'"
proof (induction rule: star_repeat.induct)
  case (star_stop s s1)
  then have "star_loop func m 0 s = Ret s1" by simp
  then show ?case by blast
next
  case (star_again s s1 s2 s')
  then obtain k where "star_loop func m k s2 = Ret s'" by blast
  then have "star_loop func m (Suc k) s = Ret s'" using star_again.hyps by simp
  then show ?case by blast
qed

text \<open>
  C3. For a node quantified with Plus, the driver first calls the single-repetition
  function \<open>func\<close> once. If that call returns without having applied, the driver reports
  the diagnostic \<^verbatim>\<open>match did not apply\<close> through \<^verbatim>\<open>grammar_error\<close> and returns. If it applied,
  the driver returns exactly the states reached by calling \<open>func\<close> again while each call
  reports applied and stopping at the first call that does not, with the applied flag
  set at the end.
\<close>

theorem plus_quantifier:
  assumes "quant m = Q_PLUS" and "func m s = Ret s1"
  shows "(\<not> applied s1 \<longrightarrow>
            (\<exists>s'. parse_quant_match func k m s = Ret s' \<and>
                  out s' = out s1 @ [GrammarError (filename s1) (lineno s1) ''match did not apply'' []])) \<and>
         (applied s1 \<longrightarrow>
            (\<forall>s'. (\<exists>j. parse_quant_match func j m s = Ret s') \<longleftrightarrow>
                  (\<exists>s2. plus_repeat (func m) s1 s2 \<and> s' = s2\<lparr>applied := True\<rparr>)))"
proof (intro conjI impI allI)
  assume "\<not> applied s1"
  then show "\<exists>s'. parse_quant_match func k m s = Ret s' \<and>
      out s' = out s1 @ [GrammarError (filename s1) (lineno s1) ''match did not apply'' []]"
    using assms by (cases k) (simp_all add: parse_quant_match_def grammar_error_def set_applied_def)
next
  fix s'
  assume a: "applied s1"
  have pq: "parse_quant_match func j m s = and_then (plus_loop (func m) j s1) (set_applied True)" for j
    using assms a by (simp add: parse_quant_match_def)
  show "(\<exists>j. parse_quant_match func j m s = Ret s') \<longleftrightarrow>
        (\<exists>s2. plus_repeat (func m) s1 s2 \<and> s' = s2\<lparr>applied := True\<rparr>)"
  proof
    assume "\<exists>j. parse_quant_match func j m s = Ret s'"
    then obtain j s2 where "plus_loop (func m) j s1 = Ret s2" "s' = s2\<lparr>applied := True\<rparr>"
      unfolding pq by (auto simp: and_then_Ret_iff set_applied_def)
    then show "\<exists>s2. plus_repeat (func m) s1 s2 \<and> s' = s2\<lparr>applied := True\<rparr>"
      using plus_loop_repeat by blast
  next
    assume "\<exists>s2. plus_repeat (func m) s1 s2 \<and> s' = s2\<lparr>applied := True\<rparr>"
    then obtain s2 j where "plus_loop (func m) j s1 = Ret s2" "s' = s2\<lparr>applied := True\<rparr>"
      using plus_repeat_loop by blast
    then have "parse_quant_match func j m s = Ret s'"
      unfolding pq by (simp add: set_applied_def)
    then show "\<exists>j. parse_quant_match func j m s = Ret s'" by blast
  qed
qed

lemma star_quant_eq:
  "quant m = Q_STAR \<Longrightarrow>
   parse_quant_match func k m s = and_then (star_loop func m k s) (set_applied True)"
  by (simp add: parse_quant_match_def)

text \<open>
  C4. For a node quantified with Star, the driver returns exactly the states reached by
  asking the lookahead before each repetition and calling \<open>func\<close> while it says that the
  node could apply; whenever it returns, the applied flag is set, and when the lookahead
  refuses at once it returns after zero repetitions. On the text \<^verbatim>\<open>aaab\<close>, a Star-quantified
  node over the literal \<^verbatim>\<open>a\<close> consumes the three \<^verbatim>\<open>a\<close> and stops at the \<^verbatim>\<open>b\<close>, given fuel 5
  or more.
\<close>

theorem star_quantifier:
  "(quant m = Q_STAR \<longrightarrow>
      (\<forall>s'. (\<exists>j. parse_quant_match func j m s = Ret s') \<longleftrightarrow>
            (\<exists>s2. star_repeat func m s s2 \<and> s' = s2\<lparr>applied := True\<rparr>)) \<and>
      (\<forall>s'. parse_quant_match func k m s = Ret s' \<longrightarrow> applied s') \<and>
      (\<not> fst (applies m s) \<longrightarrow>
         parse_quant_match func k m s = Ret ((snd (applies m s))\<lparr>applied := True\<rparr>))) \<and>
   (5 \<le> n \<longrightarrow>
      parse_match (one_rule star_a) n star_a (at_start ''aaab'') =
        Ret ((at_start ''aaab'')\<lparr>pos := 3, applied := True\<rparr>)) \<and>
   char_at ''aaab'' 3 = CHR ''b''"
proof (intro conjI impI allI)
  fix s'
  assume q: "quant m = Q_STAR"
  show "(\<exists>j. parse_quant_match func j m s = Ret s') \<longleftrightarrow>
        (\<exists>s2. star_repeat func m s s2 \<and> s' = s2\<lparr>applied := True\<rparr>)"
  proof
    assume "\<exists>j. parse_quant_match func j m s = Ret s'"
    then obtain j s2 where "star_loop func m j s = Ret s2" "s' = s2\<lparr>applied := True\<rparr>"
      unfolding star_quant_eq [OF q] by (auto simp: and_then_Ret_iff set_applied_def)
    then show "\<exists>s2. star_repeat func m s s2 \<and> s' = s2\<lparr>applied := True\<rparr>"
      using star_loop_repeat by blast
  next
    assume "\<exists>s2. star_repeat func m s s2 \<and> s' = s2\<lparr>applied := True\<rparr>"
    then obtain s2 j where "star_loop func m j s = Ret s2" "s' = s2\<lparr>applied := True\<rparr>"
      using star_repeat_loop by blast
    then have "parse_quant_match func j m s = Ret s'"
      unfolding star_quant_eq [OF q] by (simp add: set_applied_def)
    then show "\<exists>j. parse_quant_match func j m s = Ret s'" by blast
  qed
next
  fix s'
  assume "quant m = Q_STAR" "parse_quant_match func k m s = Ret s'"
  then show "applied s'"
    by (auto simp: star_quant_eq and_then_Ret_iff set_applied_def)
next
  assume q: "quant m = Q_STAR" and n: "\<not> fst (applies m s)"
  obtain a s1 where a: "applies m s = (a, s1)" by (cases "applies m s")
  then have "star_loop func m k s = Ret s1" using n by (cases k) simp_all
  then show "parse_quant_match func k m s = Ret ((snd (applies m s))\<lparr>applied := True\<rparr>)"
    using a by (simp add: star_quant_eq [OF q] set_applied_def)
next
  assume n: "5 \<le> n"
  have "parse_match (one_rule star_a) 5 star_a (at_start ''aaab'') =
     Ret ((at_start ''aaab'')\<lparr>pos := 3, applied := True\<rparr>)"
    by code_simp
  then show "parse_match (one_rule star_a) n star_a (at_start ''aaab'') =
     Ret ((at_start ''aaab'')\<lparr>pos := 3, applied := True\<rparr>)"
    using n by (rule parse_match_more_fuel)
next
  show "char_at ''aaab'' 3 = CHR ''b''" by code_simp
qed

section \<open>Alternatives and sequences\<close>

lemma applies_same_cursor:
  "input_text s' = input_text s \<Longrightarrow> pos s' = pos s \<Longrightarrow> fst (applies p s') = fst (applies p s)"
  by (simp add: applies_def applies_loop_iff lex_literal_length)

lemma applies_each_Nil: "applies_each [] s = s"
  by (simp add: applies_each_def)

lemma applies_each_Cons: "applies_each (p # ps) s = applies_each ps (snd (applies p s))"
  by (simp add: applies_each_def)

lemma applies_each_frame:
  "filename (applies_each ps s) = filename s \<and>
   lineno (applies_each ps s) = lineno s \<and>
   input_text (applies_each ps s) = input_text s \<and>
   pos (applies_each ps s) = pos s \<and>
   applied (applies_each ps s) = applied s \<and>
   flags (applies_each ps s) = flags s \<and>
   log (applies_each ps s) = log s"
proof (induction ps arbitrary: s)
  case Nil
  show ?case by (simp add: applies_each_Nil)
next
  case (Cons p ps)
  show ?case using Cons.IH [of "snd (applies p s)"] by (simp add: applies_each_Cons applies_frame)
qed

lemma alternative_loop_none:
  "\<forall>b\<in>set ps. \<not> fst (applies b s) \<Longrightarrow> alternative_loop pm ps s = Ret (applies_each ps s)"
proof (induction ps arbitrary: s)
  case Nil
  show ?case by (simp add: applies_each_Nil)
next
  case (Cons p ps)
  obtain a s1 where a: "applies p s = (a, s1)" by (cases "applies p s")
  have same: "input_text s1 = input_text s" "pos s1 = pos s"
    using applies_frame [of p s] a by simp_all
  have "\<forall>b\<in>set ps. \<not> fst (applies b s1)"
    using Cons.prems applies_same_cursor [OF same] by simp
  then have "alternative_loop pm ps s1 = Ret (applies_each ps s1)" by (rule Cons.IH)
  moreover have "\<not> a" using Cons.prems a by simp
  ultimately show ?case using a by (simp add: applies_each_Cons)
qed

lemma alternative_loop_first:
  "\<forall>b\<in>set pre. \<not> fst (applies b s) \<Longrightarrow> fst (applies p s) \<Longrightarrow>
   alternative_loop pm (pre @ p # post) s =
     and_then (pm p (applies_each (pre @ [p]) s)) (set_applied True)"
proof (induction pre arbitrary: s)
  case Nil
  obtain a s1 where a: "applies p s = (a, s1)" by (cases "applies p s")
  then show ?case using Nil by (simp add: applies_each_Cons applies_each_Nil)
next
  case (Cons b pre)
  obtain a s1 where a: "applies b s = (a, s1)" by (cases "applies b s")
  have same: "input_text s1 = input_text s" "pos s1 = pos s"
    using applies_frame [of b s] a by simp_all
  have n: "\<forall>c\<in>set pre. \<not> fst (applies c s1)"
    using Cons.prems(1) applies_same_cursor [OF same] by simp
  have y: "fst (applies p s1)"
    using Cons.prems(2) applies_same_cursor [OF same] by simp
  have "alternative_loop pm (pre @ p # post) s1 =
          and_then (pm p (applies_each (pre @ [p]) s1)) (set_applied True)"
    using n y by (rule Cons.IH)
  moreover have "\<not> a" using Cons.prems(1) a by simp
  ultimately show ?case using a by (simp add: applies_each_Cons)
qed

text \<open>
  C2. One repetition of an ALTERNATIVE node clears the applied flag and asks the
  lookahead about the branches in declaration order. For the first branch \<open>p\<close> that the
  lookahead accepts (none of the branches \<open>pre\<close> before it being accepted), it dispatches
  into \<open>p\<close> and then sets the applied flag whatever \<open>p\<close> left there; the branches \<open>post\<close>
  after it play no part in the result. When the lookahead accepts no branch, it returns
  with the applied flag cleared and the cursor where it was.
\<close>

theorem alternative_takes_first_applicable:
  "((\<forall>b\<in>set pre. \<not> fst (applies b s)) \<and> fst (applies p s) \<longrightarrow>
      parse_alternative pm (ALTERNATIVE q f (pre @ p # post)) s =
        (case pm p (applies_each (pre @ [p]) (s\<lparr>applied := False\<rparr>)) of
           Ret s2 \<Rightarrow> Ret (s2\<lparr>applied := True\<rparr>)
         | OutOfFuel \<Rightarrow> OutOfFuel
         | Fatal \<Rightarrow> Fatal) \<and>
      parse_alternative pm (ALTERNATIVE q f (pre @ p # post)) s =
        parse_alternative pm (ALTERNATIVE q f (pre @ [p])) s) \<and>
   ((\<forall>b\<in>set ms. \<not> fst (applies b s)) \<longrightarrow>
      parse_alternative pm (ALTERNATIVE q f ms) s = Ret (applies_each ms (s\<lparr>applied := False\<rparr>))) \<and>
   pos (applies_each ms (s\<lparr>applied := False\<rparr>)) = pos s \<and>
   lineno (applies_each ms (s\<lparr>applied := False\<rparr>)) = lineno s \<and>
   input_text (applies_each ms (s\<lparr>applied := False\<rparr>)) = input_text s \<and>
   applied (applies_each ms (s\<lparr>applied := False\<rparr>)) = False"
proof (intro conjI impI)
  let ?s0 = "s\<lparr>applied := False\<rparr>"
  have same: "input_text ?s0 = input_text s" "pos ?s0 = pos s" by simp_all
  {
    assume h: "(\<forall>b\<in>set pre. \<not> fst (applies b s)) \<and> fst (applies p s)"
    have "\<forall>b\<in>set pre. \<not> fst (applies b ?s0)" "fst (applies p ?s0)"
      using h applies_same_cursor [OF same] by simp_all
    then have "alternative_loop pm (pre @ p # post) ?s0 =
        and_then (pm p (applies_each (pre @ [p]) ?s0)) (set_applied True)" for post
      by (rule alternative_loop_first)
    note first = this
    show "parse_alternative pm (ALTERNATIVE q f (pre @ p # post)) s =
        (case pm p (applies_each (pre @ [p]) ?s0) of
           Ret s2 \<Rightarrow> Ret (s2\<lparr>applied := True\<rparr>)
         | OutOfFuel \<Rightarrow> OutOfFuel
         | Fatal \<Rightarrow> Fatal)"
      using first [of post]
      by (simp add: parse_alternative_def and_then_def set_applied_def split: outcome.splits)
    show "parse_alternative pm (ALTERNATIVE q f (pre @ p # post)) s =
        parse_alternative pm (ALTERNATIVE q f (pre @ [p])) s"
      using first [of post] first [of "[]"] by (simp add: parse_alternative_def)
  }
  {
    assume h: "\<forall>b\<in>set ms. \<not> fst (applies b s)"
    have "\<forall>b\<in>set ms. \<not> fst (applies b ?s0)"
      using h applies_same_cursor [OF same] by simp
    then have "alternative_loop pm ms ?s0 = Ret (applies_each ms ?s0)"
      by (rule alternative_loop_none)
    then show "parse_alternative pm (ALTERNATIVE q f ms) s = Ret (applies_each ms ?s0)"
      by (simp add: parse_alternative_def)
  }
  show "pos (applies_each ms ?s0) = pos s" "lineno (applies_each ms ?s0) = lineno s"
    "input_text (applies_each ms ?s0) = input_text s" "applied (applies_each ms ?s0) = False"
    using applies_each_frame [of ms ?s0] by simp_all
qed

text \<open>
  C10. When the first repetition of a Plus-quantified ALTERNATIVE, SEQUENCE or RULE_REF
  node returns without having applied, the dispatcher still returns with the applied
  flag set (after the diagnostic, the cursor where the repetition left it), whatever
  the flag was when the node was entered. So a sequence loop that meets this node goes
  on with the elements after it, and so does a SEQUENCE that has it as its first element.
\<close>

theorem plus_failure_not_propagated:
  assumes "m = ALTERNATIVE Q_PLUS f ms \<and> func = parse_alternative (parse_match G n) \<or>
           m = SEQUENCE Q_PLUS f ms \<and> func = parse_sequence (parse_match G n) \<or>
           m = RULE_REF Q_PLUS f r \<and> func = parse_rule_ref G (parse_match G n)"
      and "func m s = Ret s1" and "\<not> applied s1"
      and "s' = (grammar_error (filename s1) (lineno s1) ''match did not apply'' [] s1)\<lparr>applied := True\<rparr>"
  shows "parse_match G (Suc n) m s = Ret s' \<and> applied s' \<and>
         pos s' = pos s1 \<and> lineno s' = lineno s1 \<and>
         sequence_loop (parse_match G (Suc n)) (m # rest) s =
           sequence_loop (parse_match G (Suc n)) rest s' \<and>
         (s = s0\<lparr>applied := True\<rparr> \<longrightarrow>
            parse_sequence (parse_match G (Suc n)) (SEQUENCE q' f' (m # rest)) s0 =
              sequence_loop (parse_match G (Suc n)) rest s')"
proof -
  have q: "quant m = Q_PLUS" using assms(1) by auto
  have pm: "parse_match G (Suc n) m = parse_quant_match func n m"
    using assms(1) by auto
  have "parse_quant_match func n m s = Ret s'"
    using q assms(2,3,4)
    by (cases n) (simp_all add: parse_quant_match_def set_applied_def grammar_error_def Let_def)
  then have r: "parse_match G (Suc n) m s = Ret s'" using pm by simp
  have a: "applied s'" "pos s' = pos s1" "lineno s' = lineno s1"
    using assms(4) by (simp_all add: grammar_error_def)
  have l: "sequence_loop (parse_match G (Suc n)) (m # rest) s =
           sequence_loop (parse_match G (Suc n)) rest s'"
    using r a(1) by simp
  have "parse_sequence (parse_match G (Suc n)) (SEQUENCE q' f' (m # rest)) s0 =
           sequence_loop (parse_match G (Suc n)) rest s'" if "s = s0\<lparr>applied := True\<rparr>"
    unfolding parse_sequence_def using l that by simp
  then show ?thesis using r a l by simp
qed

section \<open>Invariants of the dispatcher\<close>

lemma stable_literal: "stable L P \<Longrightarrow> l \<in> L \<Longrightarrow> P s \<Longrightarrow> P (parse_literal l s)"
  by (simp add: stable_def)

lemma stable_applied: "stable L P \<Longrightarrow> P s \<Longrightarrow> P (s\<lparr>applied := b\<rparr>)"
  by (simp add: stable_def)

lemma stable_out: "stable L P \<Longrightarrow> P s \<Longrightarrow> ParseFailed \<notin> set es \<Longrightarrow> P (s\<lparr>out := out s @ es\<rparr>)"
  by (simp add: stable_def)

lemma stable_emit: "stable L P \<Longrightarrow> P s \<Longrightarrow> e \<noteq> ParseFailed \<Longrightarrow> P (emit e s)"
  using stable_out [of L P s "[e]"] by (simp add: emit_def)

lemma lex_literal_out:
  "\<exists>es. snd (lex_literal l s) = s\<lparr>out := out s @ es\<rparr> \<and> ParseFailed \<notin> set es"
proof -
  let ?rc = "re l (input_text s) (pos s)"
  let ?tr = "TraceMatch (pos s) (pattern l) ?rc"
  let ?ge = "\<lambda>m0. GrammarError (filename s) (lineno s) ''Skipped %d characters'' [m0 - pos s]"
  consider (none) "?rc = None" | (some) m0 m1 where "?rc = Some (m0, m1)"
    by (cases ?rc) auto
  then show ?thesis
  proof cases
    case none
    show ?thesis
    proof (cases "PF_MATCH \<in> flags s")
      case True
      then have "snd (lex_literal l s) = s\<lparr>out := out s @ [?tr]\<rparr>"
        using none by (simp add: lex_literal_def emit_def Let_def)
      then show ?thesis by (intro exI [of _ "[?tr]"]) simp
    next
      case False
      then have "snd (lex_literal l s) = s\<lparr>out := out s @ []\<rparr>"
        using none by (simp add: lex_literal_def Let_def)
      then show ?thesis by (intro exI [of _ "[]"]) simp
    qed
  next
    case some
    show ?thesis
    proof (cases "PF_MATCH \<in> flags s")
      case True
      show ?thesis
      proof (cases "m0 = pos s")
        case eq: True
        have "snd (lex_literal l s) = s\<lparr>out := out s @ [?tr]\<rparr>"
          using some True eq by (simp add: lex_literal_def emit_def Let_def)
        then show ?thesis by (intro exI [of _ "[?tr]"]) simp
      next
        case ne: False
        have "snd (lex_literal l s) = s\<lparr>out := out s @ [?tr, ?ge m0]\<rparr>"
          using some True ne
          by (simp add: lex_literal_def emit_def parse_error_def grammar_error_def Let_def)
        then show ?thesis by (intro exI [of _ "[?tr, ?ge m0]"]) simp
      qed
    next
      case False
      show ?thesis
      proof (cases "m0 = pos s")
        case eq: True
        have "snd (lex_literal l s) = s\<lparr>out := out s @ []\<rparr>"
          using some False eq by (simp add: lex_literal_def Let_def)
        then show ?thesis by (intro exI [of _ "[]"]) simp
      next
        case ne: False
        have "snd (lex_literal l s) = s\<lparr>out := out s @ [?ge m0]\<rparr>"
          using some False ne
          by (simp add: lex_literal_def emit_def parse_error_def grammar_error_def Let_def)
        then show ?thesis by (intro exI [of _ "[?ge m0]"]) simp
      qed
    qed
  qed
qed

lemma stable_lex: "stable L P \<Longrightarrow> P s \<Longrightarrow> P (snd (lex_literal l s))"
  using lex_literal_out [of l s] stable_out [of L P s] by auto

lemma stable_applies_loop: "stable L P \<Longrightarrow> P s \<Longrightarrow> P (snd (applies_loop fs s))"
proof (induction fs arbitrary: s)
  case Nil
  then show ?case by simp
next
  case (Cons f fs)
  obtain len s1 where l: "lex_literal f s = (len, s1)" by (cases "lex_literal f s")
  have "P s1" using stable_lex [OF Cons.prems, of f] l by simp
  then show ?case using l Cons.IH [OF Cons.prems(1), of s1] by simp
qed

lemma stable_applies: "stable L P \<Longrightarrow> P s \<Longrightarrow> P (snd (applies m s))"
  by (simp add: applies_def stable_applies_loop)

lemma preservesD: "preserves P f \<Longrightarrow> P s \<Longrightarrow> f s = Ret s' \<Longrightarrow> P s'"
  by (auto simp: preserves_def)

lemma preservesI: "(\<And>s s'. P s \<Longrightarrow> f s = Ret s' \<Longrightarrow> P s') \<Longrightarrow> preserves P f"
  by (auto simp: preserves_def)

lemma preserves_alternative_loop:
  assumes "stable L P" and "\<forall>p\<in>set ps. preserves P (pm p)"
  shows "preserves P (alternative_loop pm ps)"
  using assms(2)
proof (induction ps)
  case Nil
  show ?case by (rule preservesI) simp
next
  case (Cons p ps)
  have ih: "preserves P (alternative_loop pm ps)" using Cons by simp
  have pp: "preserves P (pm p)" using Cons.prems by simp
  show ?case
  proof (rule preservesI)
    fix s s'
    assume P: "P s" and r: "alternative_loop pm (p # ps) s = Ret s'"
    obtain a s1 where a: "applies p s = (a, s1)" by (cases "applies p s")
    have P1: "P s1" using stable_applies [OF assms(1) P, of p] a by simp
    show "P s'"
    proof (cases a)
      case True
      then obtain s2 where "pm p s1 = Ret s2" "s' = s2\<lparr>applied := True\<rparr>"
        using r a by (auto simp: and_then_Ret_iff set_applied_def)
      then show ?thesis using preservesD [OF pp P1] stable_applied [OF assms(1)] by blast
    next
      case False
      then have "alternative_loop pm ps s1 = Ret s'" using r a by simp
      then show ?thesis using preservesD [OF ih P1] by blast
    qed
  qed
qed

lemma preserves_sequence_loop:
  assumes "\<forall>p\<in>set ps. preserves P (pm p)"
  shows "preserves P (sequence_loop pm ps)"
  using assms
proof (induction ps)
  case Nil
  show ?case by (rule preservesI) simp
next
  case (Cons p ps)
  have ih: "preserves P (sequence_loop pm ps)" using Cons by simp
  have pp: "preserves P (pm p)" using Cons.prems by simp
  show ?case
  proof (rule preservesI)
    fix s s'
    assume P: "P s" and r: "sequence_loop pm (p # ps) s = Ret s'"
    then obtain s1 where s1: "pm p s = Ret s1"
        and k: "(if \<not> applied s1 then Ret s1 else sequence_loop pm ps s1) = Ret s'"
      by (auto simp: and_then_Ret_iff)
    have P1: "P s1" using preservesD [OF pp P s1] .
    show "P s'"
    proof (cases "applied s1")
      case True
      then show ?thesis using k preservesD [OF ih P1] by simp
    next
      case False
      then show ?thesis using k P1 by simp
    qed
  qed
qed

lemma preserves_plus_loop:
  assumes "preserves P f"
  shows "preserves P (plus_loop f k)"
proof (induction k)
  case 0
  show ?case by (rule preservesI) (simp split: if_splits)
next
  case (Suc k)
  show ?case
  proof (rule preservesI)
    fix s s'
    assume P: "P s" and r: "plus_loop f (Suc k) s = Ret s'"
    show "P s'"
    proof (cases "applied s")
      case False
      then show ?thesis using r P by simp
    next
      case True
      then obtain s1 where "f s = Ret s1" "plus_loop f k s1 = Ret s'"
        using r by (auto simp: and_then_Ret_iff)
      then show ?thesis using preservesD [OF assms P] preservesD [OF Suc] by blast
    qed
  qed
qed

lemma preserves_star_loop:
  assumes "stable L P" and "preserves P (func m)"
  shows "preserves P (star_loop func m k)"
proof (induction k)
  case 0
  show ?case
  proof (rule preservesI)
    fix s s'
    assume P: "P s" and r: "star_loop func m 0 s = Ret s'"
    obtain a s1 where a: "applies m s = (a, s1)" by (cases "applies m s")
    have "P s1" using stable_applies [OF assms(1) P, of m] a by simp
    then show "P s'" using r a by (simp split: if_splits)
  qed
next
  case (Suc k)
  show ?case
  proof (rule preservesI)
    fix s s'
    assume P: "P s" and r: "star_loop func m (Suc k) s = Ret s'"
    obtain a s1 where a: "applies m s = (a, s1)" by (cases "applies m s")
    have P1: "P s1" using stable_applies [OF assms(1) P, of m] a by simp
    show "P s'"
    proof (cases a)
      case False
      then show ?thesis using r a P1 by simp
    next
      case True
      then obtain s2 where "func m s1 = Ret s2" "star_loop func m k s2 = Ret s'"
        using r a by (auto simp: and_then_Ret_iff)
      then show ?thesis using preservesD [OF assms(2) P1] preservesD [OF Suc] by blast
    qed
  qed
qed

lemma preserves_quant_match:
  assumes st: "stable L P" and f: "preserves P (func m)"
  shows "preserves P (parse_quant_match func k m)"
proof (rule preservesI)
  fix s s'
  assume P: "P s" and r: "parse_quant_match func k m s = Ret s'"
  show "P s'"
  proof (cases "quant m")
    case Q_ONCE
    then show ?thesis using r preservesD [OF f P] by (simp add: parse_quant_match_def)
  next
    case Q_MAYBE
    obtain a s1 where a: "applies m s = (a, s1)" by (cases "applies m s")
    have P1: "P s1" using stable_applies [OF st P, of m] a by simp
    from r Q_MAYBE a obtain s2 where
        s2: "(if a then func m s1 else Ret s1) = Ret s2" and s': "s' = s2\<lparr>applied := True\<rparr>"
      by (auto simp: parse_quant_match_def and_then_Ret_iff set_applied_def)
    have "P s2" using s2 P1 preservesD [OF f P1] by (cases a) simp_all
    then show ?thesis using s' stable_applied [OF st] by simp
  next
    case Q_PLUS
    let ?rep = "\<lambda>s1. if \<not> applied s1
        then grammar_error (filename s1) (lineno s1) ''match did not apply'' [] s1 else s1"
    from r Q_PLUS obtain s1 s3 where
        s1: "func m s = Ret s1" and s3: "plus_loop (func m) k (?rep s1) = Ret s3"
        and s': "s' = s3\<lparr>applied := True\<rparr>"
      by (auto simp: parse_quant_match_def and_then_Ret_iff set_applied_def Let_def)
    have P1: "P s1" using preservesD [OF f P s1] .
    have "P (?rep s1)" using P1 stable_emit [OF st P1] by (simp add: grammar_error_def)
    then have "P s3" using preservesD [OF preserves_plus_loop [OF f]] s3 by blast
    then show ?thesis using s' stable_applied [OF st] by simp
  next
    case Q_STAR
    from r Q_STAR obtain s1 where
        s1: "star_loop func m k s = Ret s1" and s': "s' = s1\<lparr>applied := True\<rparr>"
      by (auto simp: parse_quant_match_def and_then_Ret_iff set_applied_def)
    have "preserves P (star_loop func m k)"
      using st f by (rule preserves_star_loop [where func = func and m = m])
    then have "P s1" using P s1 by (rule preservesD)
    then show ?thesis using s' stable_applied [OF st] by simp
  qed
qed

lemma rule_at_lits: "rule_at G i = Some r \<Longrightarrow> lits_of (rule_matches r) \<subseteq> grammar_lits G"
  by (auto simp: rule_at_def grammar_lits_def split: if_splits)

lemma find_field_lits: "find_field G ow fl = Some m \<Longrightarrow> lits_of m \<subseteq> grammar_lits G"
proof -
  assume a: "find_field G ow fl = Some m"
  have "lits_of m = (case find_field G ow fl of None \<Rightarrow> {} | Some m \<Rightarrow> lits_of m)"
    using a by simp
  then show ?thesis unfolding grammar_lits_def by blast
qed

lemma preserves_parse_rule:
  assumes "stable L P" and "preserves P (pm (rule_matches r))"
  shows "preserves P (parse_rule pm r)"
proof (rule preservesI)
  fix s s'
  assume P: "P s" and r: "parse_rule pm r s = Ret s'"
  let ?s1 = "if PF_RULE \<in> flags s then emit (TraceRule (rule_name r)) s else s"
  have "P ?s1" using P stable_emit [OF assms(1) P] by simp
  then show "P s'" using r preservesD [OF assms(2)] by (simp add: parse_rule_def)
qed

lemma preserves_parse_match:
  assumes st: "stable L P" and G: "grammar_lits G \<subseteq> L"
  shows "lits_of m \<subseteq> L \<Longrightarrow> preserves P (parse_match G n m)"
proof (induction n arbitrary: m)
  case 0
  show ?case by (rule preservesI) simp
next
  case (Suc n)
  show ?case
  proof (cases m)
    case (LITERAL q f l)
    then have "l \<in> L" using Suc.prems by simp
    then show ?thesis using LITERAL stable_literal [OF st]
      by (intro preservesI) auto
  next
    case (ANY q f l)
    then have "l \<in> L" using Suc.prems by simp
    then show ?thesis using ANY stable_literal [OF st]
      by (intro preservesI) (auto simp: parse_any_def)
  next
    case (ABBREV_REF q f a)
    then have "abbrev_literal a \<in> L" using Suc.prems by simp
    then show ?thesis using ABBREV_REF stable_literal [OF st]
      by (intro preservesI) auto
  next
    case (FIELD q f ow fl)
    show ?thesis
    proof (rule preservesI)
      fix s s'
      assume P: "P s" and r: "parse_match G (Suc n) m s = Ret s'"
      then obtain fm where fm: "find_field G ow fl = Some fm" "parse_match G n fm s = Ret s'"
        using FIELD by (auto simp: parse_field_def split: option.splits)
      have "lits_of fm \<subseteq> L" using find_field_lits [OF fm(1)] G by blast
      then show "P s'" using preservesD [OF Suc.IH P fm(2)] by simp
    qed
  next
    case (ALTERNATIVE q f ms)
    have "\<forall>p\<in>set ms. preserves P (parse_match G n p)"
      using Suc.prems ALTERNATIVE by (auto intro!: Suc.IH)
    then have al: "preserves P (alternative_loop (parse_match G n) ms)"
      by (rule preserves_alternative_loop [OF st])
    have "preserves P (parse_alternative (parse_match G n) m)"
    proof (rule preservesI)
      fix s s'
      assume "P s" "parse_alternative (parse_match G n) m s = Ret s'"
      then show "P s'"
        using ALTERNATIVE preservesD [OF al stable_applied [OF st, of s False]]
        by (simp add: parse_alternative_def)
    qed
    then have "preserves P (parse_quant_match (parse_alternative (parse_match G n)) n m)"
      by (rule preserves_quant_match [OF st])
    then show ?thesis using ALTERNATIVE by (simp add: preserves_def)
  next
    case (SEQUENCE q f ms)
    have "\<forall>p\<in>set ms. preserves P (parse_match G n p)"
      using Suc.prems SEQUENCE by (auto intro!: Suc.IH)
    then have sl: "preserves P (sequence_loop (parse_match G n) ms)"
      by (rule preserves_sequence_loop)
    have "preserves P (parse_sequence (parse_match G n) m)"
    proof (rule preservesI)
      fix s s'
      assume "P s" "parse_sequence (parse_match G n) m s = Ret s'"
      then show "P s'"
        using SEQUENCE preservesD [OF sl stable_applied [OF st, of s True]]
        by (simp add: parse_sequence_def)
    qed
    then have "preserves P (parse_quant_match (parse_sequence (parse_match G n)) n m)"
      by (rule preserves_quant_match [OF st])
    then show ?thesis using SEQUENCE by (simp add: preserves_def)
  next
    case (RULE_REF q f i)
    have "preserves P (parse_rule_ref G (parse_match G n) m)"
    proof (rule preservesI)
      fix s s'
      assume P: "P s" and r: "parse_rule_ref G (parse_match G n) m s = Ret s'"
      then obtain rl where rl: "rule_at G i = Some rl" "parse_rule (parse_match G n) rl s = Ret s'"
        using RULE_REF by (auto simp: parse_rule_ref_def split: option.splits)
      have "lits_of (rule_matches rl) \<subseteq> L" using rule_at_lits [OF rl(1)] G by blast
      then have "preserves P (parse_match G n (rule_matches rl))" by (rule Suc.IH)
      then have "preserves P (parse_rule (parse_match G n) rl)"
        by (rule preserves_parse_rule [OF st])
      then show "P s'" using P rl(2) by (rule preservesD)
    qed
    then have "preserves P (parse_quant_match (parse_rule_ref G (parse_match G n)) n m)"
      by (rule preserves_quant_match [OF st])
    then show ?thesis using RULE_REF by (simp add: preserves_def)
  qed
qed

lemma preserves_root:
  assumes st: "stable L P" and G: "grammar_lits G \<subseteq> L" and r: "r \<in> set (rules G)"
  shows "preserves P (parse_rule (parse_match G n) r)"
proof -
  have "lits_of (rule_matches r) \<subseteq> L" using r G by (auto simp: grammar_lits_def)
  then have "preserves P (parse_match G n (rule_matches r))"
    by (rule preserves_parse_match [OF st G])
  then show ?thesis by (rule preserves_parse_rule [OF st])
qed

section \<open>The line counter and the verdict\<close>

lemma advance_out:
  "out (advance s cnt) = out s \<or> out (advance s cnt) = out s @ [TraceAdvance cnt]"
  using advance_loop_frame [of 0 cnt s] by (simp add: advance_def Let_def)

lemma emit_token_out:
  "out (emit_token msg s len) = out s \<or> (\<exists>tok. out (emit_token msg s len) = out s @ [TraceToken msg tok])"
  by (simp add: emit_token_def)

lemma parse_literal_text: "input_text (parse_literal l s) = input_text s"
proof -
  obtain len s1 where l: "lex_literal l s = (len, s1)" by (cases "lex_literal l s")
  have "input_text s1 = input_text s" using lex_literal_frame [of l s] l by simp
  then show ?thesis using l by (simp add: parse_literal_def advance_text emit_token_frame)
qed

lemma parse_literal_pos:
  "pos (parse_literal l s) =
     (if fst (lex_literal l s) < 0 then pos s else pos s + fst (lex_literal l s))"
proof -
  obtain len s1 where l: "lex_literal l s = (len, s1)" by (cases "lex_literal l s")
  have "pos s1 = pos s" using lex_literal_frame [of l s] l by simp
  then show ?thesis using l by (simp add: parse_literal_def advance_pos emit_token_frame)
qed

lemma parse_literal_lineno:
  assumes "0 \<le> pos s"
  shows "lineno (parse_literal l s) =
     (if fst (lex_literal l s) < 0 then lineno s
      else lineno s + int (newlines (take (nat (fst (lex_literal l s)))
                                        (drop (nat (pos s)) (input_text s)))))"
proof -
  obtain len s1 where l: "lex_literal l s = (len, s1)" by (cases "lex_literal l s")
  have fr: "pos s1 = pos s" "lineno s1 = lineno s" "input_text s1 = input_text s"
    using lex_literal_frame [of l s] l by simp_all
  let ?s2 = "emit_token ''literal'' s1 len"
  have "0 \<le> pos ?s2" using assms fr by (simp add: emit_token_frame)
  then have "lineno (advance ?s2 len) =
      lineno ?s2 + int (newlines (take (nat len) (drop (nat (pos ?s2)) (input_text ?s2))))"
    by (rule advance_lineno)
  then show ?thesis using l fr by (simp add: parse_literal_def emit_token_frame)
qed

lemma parse_literal_out:
  "ParseFailed \<notin> set (out s) \<Longrightarrow> ParseFailed \<notin> set (out (parse_literal l s))"
proof -
  assume a: "ParseFailed \<notin> set (out s)"
  obtain len s1 where l: "lex_literal l s = (len, s1)" by (cases "lex_literal l s")
  obtain es where "s1 = s\<lparr>out := out s @ es\<rparr>" "ParseFailed \<notin> set es"
    using lex_literal_out [of l s] l by auto
  then have s1: "ParseFailed \<notin> set (out s1)" using a by simp
  let ?s2 = "emit_token ''literal'' s1 len"
  have s2: "ParseFailed \<notin> set (out ?s2)"
    using emit_token_out [of "''literal''" s1 len] s1 by auto
  have "ParseFailed \<notin> set (out (advance ?s2 len))"
    using advance_out [of ?s2 len] s2 by auto
  then show ?thesis using l s1 by (simp add: parse_literal_def)
qed

lemma newlines_append: "newlines (xs @ ys) = newlines xs + newlines ys"
  by (simp add: newlines_def)

lemma stable_line_inv: "stable UNIV (line_inv t)"
  unfolding stable_def
proof (intro conjI ballI allI impI)
  fix l s
  assume inv: "line_inv t s"
  then have p: "0 \<le> pos s" and tx: "input_text s = t"
      and ln: "lineno s = 1 + int (newlines (take (nat (pos s)) t))"
    by (simp_all add: line_inv_def)
  let ?len = "fst (lex_literal l s)"
  show "line_inv t (parse_literal l s)"
  proof (cases "?len < 0")
    case True
    then show ?thesis
      using p tx ln by (simp add: line_inv_def parse_literal_text parse_literal_pos parse_literal_lineno)
  next
    case False
    have "nat (pos s + ?len) = nat (pos s) + nat ?len" using p False by simp
    then have "take (nat (pos s + ?len)) t = take (nat (pos s)) t @ take (nat ?len) (drop (nat (pos s)) t)"
      by (simp add: take_add)
    then have "newlines (take (nat (pos s + ?len)) t) =
        newlines (take (nat (pos s)) t) + newlines (take (nat ?len) (drop (nat (pos s)) t))"
      by (simp add: newlines_append)
    then show ?thesis
      using False p tx ln
      by (simp add: line_inv_def parse_literal_text parse_literal_pos parse_literal_lineno)
  qed
next
  fix s b
  assume "line_inv t s"
  then show "line_inv t (s\<lparr>applied := b\<rparr>)" by (simp add: line_inv_def)
next
  fix s es
  assume "line_inv t s"
  then show "line_inv t (s\<lparr>out := out s @ es\<rparr>)" by (simp add: line_inv_def)
qed

lemma stable_bound_inv:
  assumes "\<forall>l\<in>L. lit_ok l"
  shows "stable L (bound_inv t)"
  unfolding stable_def
proof (intro conjI ballI allI impI)
  fix l s
  assume l: "l \<in> L" and inv: "bound_inv t s"
  then have p: "0 \<le> pos s" "pos s \<le> int (length t)" and tx: "input_text s = t"
      and o: "ParseFailed \<notin> set (out s)"
    by (simp_all add: bound_inv_def)
  let ?len = "fst (lex_literal l s)"
  have "pos s + ?len \<le> int (length t)" if "\<not> ?len < 0"
  proof (cases "re l t (pos s)")
    case None
    then show ?thesis using that tx by (simp add: lex_literal_length)
  next
    case (Some m)
    obtain m0 m1 where m: "m = (m0, m1)" by (cases m)
    have "pos s \<le> m0 \<and> m1 \<le> int (length t)"
      using assms l Some m unfolding lit_ok_def by blast
    moreover have "?len = m1 - m0" using Some m tx by (simp add: lex_literal_length)
    ultimately show ?thesis by linarith
  qed
  then show "bound_inv t (parse_literal l s)"
    using p tx o by (simp add: bound_inv_def parse_literal_text parse_literal_pos parse_literal_out)
next
  fix s b
  assume "bound_inv t s"
  then show "bound_inv t (s\<lparr>applied := b\<rparr>)" by (simp add: bound_inv_def)
next
  fix s es
  assume "bound_inv t s" "ParseFailed \<notin> set es"
  then show "bound_inv t (s\<lparr>out := out s @ es\<rparr>)" by (simp add: bound_inv_def)
qed

lemma initial_state_sel:
  "lineno (initial_state fname t lg fl) = 1" "pos (initial_state fname t lg fl) = 0"
  "input_text (initial_state fname t lg fl) = t" "out (initial_state fname t lg fl) = []"
  "applied (initial_state fname t lg fl) = False" "filename (initial_state fname t lg fl) = fname"
  by (simp_all add: initial_state_def)

lemma parse_eq:
  "rules G = r # rs \<Longrightarrow> s0 = initial_state fname t lg fl \<Longrightarrow>
   parse G fuel fname t lg fl =
     and_then (parse_rule (parse_match G fuel) r (emit (PrintFlags (flags s0)) s0)) (\<lambda>s2.
       Ret (if \<not> applied s2 \<or> char_at (input_text s2) (pos s2) \<noteq> CHR 0x00
            then emit ParseFailed s2 else s2))"
  by (simp add: parse_def Let_def)

lemma char_at_end:
  assumes "c_string t" and "0 \<le> i" and "i \<le> int (length t)"
  shows "char_at t i = CHR 0x00 \<longleftrightarrow> i = int (length t)"
proof (cases "i < int (length t)")
  case True
  then have "nat i < length t" using assms(2) by linarith
  then have "t ! nat i \<in> set t" by (rule nth_mem)
  then have "t ! nat i \<noteq> CHR 0x00" using assms(1) unfolding c_string_def by metis
  then show ?thesis using True assms(2) by (simp add: char_at_def)
next
  case False
  then show ?thesis using assms(3) by (simp add: char_at_def)
qed

text \<open>
  C1. Let the text be a C string and let every literal of the grammar match inside the
  subject, as PCRE does. If the invocation of the root rule on the fresh state returns,
  then \<^verbatim>\<open>parse\<close> returns, and it reports success exactly when that invocation left the
  applied flag set and the offset equal to the length of the text; it prints
  \<^verbatim>\<open>Parse failed\<close> otherwise, in particular whenever a suffix of the text is left over.
\<close>

theorem parse_success_iff:
  assumes "c_string t" and "\<forall>l\<in>grammar_lits G. lit_ok l" and "rules G = r # rs"
      and "s0 = initial_state fname t lg fl"
      and "parse_rule (parse_match G fuel) r (emit (PrintFlags (flags s0)) s0) = Ret s2"
  shows "(parse_succeeded (parse G fuel fname t lg fl) \<longleftrightarrow> applied s2 \<and> pos s2 = int (length t)) \<and>
         parse G fuel fname t lg fl =
           Ret (if applied s2 \<and> pos s2 = int (length t) then s2 else emit ParseFailed s2) \<and>
         0 \<le> pos s2 \<and> pos s2 \<le> int (length t)"
proof -
  let ?s1 = "emit (PrintFlags (flags s0)) s0"
  have st: "stable (grammar_lits G) (bound_inv t)" using assms(2) by (rule stable_bound_inv)
  have "r \<in> set (rules G)" using assms(3) by simp
  then have pr: "preserves (bound_inv t) (parse_rule (parse_match G fuel) r)"
    using st by (intro preserves_root [where L = "grammar_lits G"]) simp_all
  have "bound_inv t ?s1" using assms(4) by (simp add: bound_inv_def initial_state_sel)
  then have inv: "bound_inv t s2" using assms(5) by (rule preservesD [OF pr])
  then have b: "0 \<le> pos s2" "pos s2 \<le> int (length t)" and tx: "input_text s2 = t"
      and o: "ParseFailed \<notin> set (out s2)"
    by (simp_all add: bound_inv_def)
  have e: "char_at (input_text s2) (pos s2) = CHR 0x00 \<longleftrightarrow> pos s2 = int (length t)"
    using char_at_end [OF assms(1) b] tx by simp
  have p: "parse G fuel fname t lg fl =
           Ret (if applied s2 \<and> pos s2 = int (length t) then s2 else emit ParseFailed s2)"
    using parse_eq [OF assms(3,4), of fuel] assms(5) e by auto
  have "parse_succeeded (parse G fuel fname t lg fl) \<longleftrightarrow> applied s2 \<and> pos s2 = int (length t)"
    unfolding p using o by (simp add: parse_succeeded_def)
  then show ?thesis using p b by simp
qed

text \<open>
  C8. A call \<^verbatim>\<open>advance(cnt)\<close> adds to the line counter the number of newlines among the
  \<open>cnt\<close> characters it consumes, and moves the offset by \<open>cnt\<close>. The counter starts at 1,
  so whenever \<^verbatim>\<open>parse\<close> returns, the counter is 1 plus the number of newlines consumed.
  The sequence of the literals \<^verbatim>\<open>ab\n\<close> and \<^verbatim>\<open>cd\<close> consumes the text \<^verbatim>\<open>ab\ncd\<close> whole and
  ends on line 2, given fuel 2 or more.
\<close>

theorem line_counter_counts_newlines:
  "(0 \<le> pos s \<longrightarrow>
      lineno (advance s cnt) =
        lineno s + int (newlines (take (nat cnt) (drop (nat (pos s)) (input_text s))))) \<and>
   pos (advance s cnt) = pos s + cnt \<and>
   lineno (initial_state fname t lg fl) = 1 \<and>
   (\<forall>s'. parse G fuel fname t lg fl = Ret s' \<longrightarrow>
      0 \<le> pos s' \<and> lineno s' = 1 + int (newlines (take (nat (pos s')) t))) \<and>
   (2 \<le> n \<longrightarrow>
      (\<exists>s'. parse (one_rule two_lines) n ''input'' ''ab\<newline>cd'' None PF_NONE = Ret s' \<and>
         pos s' = 5 \<and> lineno s' = 2))"
proof (intro conjI impI allI)
  assume "0 \<le> pos s"
  then show "lineno (advance s cnt) =
      lineno s + int (newlines (take (nat cnt) (drop (nat (pos s)) (input_text s))))"
    by (rule advance_lineno)
next
  show "pos (advance s cnt) = pos s + cnt" by (rule advance_pos)
next
  show "lineno (initial_state fname t lg fl) = 1" by (simp add: initial_state_sel)
next
  fix s'
  assume r: "parse G fuel fname t lg fl = Ret s'"
  let ?s0 = "initial_state fname t lg fl"
  let ?s1 = "emit (PrintFlags (flags ?s0)) ?s0"
  obtain rt rs where g: "rules G = rt # rs" using r by (cases "rules G") (simp_all add: parse_def Let_def)
  obtain s2 where s2: "parse_rule (parse_match G fuel) rt ?s1 = Ret s2"
      and s': "s' = s2 \<or> s' = emit ParseFailed s2"
    using r parse_eq [OF g refl, of fuel fname t lg fl]
    by (auto simp: and_then_Ret_iff split: if_splits)
  have "rt \<in> set (rules G)" using g by simp
  then have pr: "preserves (line_inv t) (parse_rule (parse_match G fuel) rt)"
    using stable_line_inv by (intro preserves_root [where L = UNIV]) simp_all
  have "line_inv t ?s1" by (simp add: line_inv_def initial_state_sel newlines_def)
  then have "line_inv t s2" using s2 by (rule preservesD [OF pr])
  then have "line_inv t s'" using s' by (auto simp: line_inv_def)
  then show "0 \<le> pos s'" "lineno s' = 1 + int (newlines (take (nat (pos s')) t))"
    by (simp_all add: line_inv_def)
next
  have "parse (one_rule two_lines) 2 ''input'' ''ab\<newline>cd'' None PF_NONE =
      Ret ((emit (PrintFlags {}) (at_start ''ab\<newline>cd''))\<lparr>lineno := 2, pos := 5, applied := True\<rparr>)"
    by code_simp
  moreover assume "2 \<le> n"
  ultimately have "parse (one_rule two_lines) n ''input'' ''ab\<newline>cd'' None PF_NONE =
      Ret ((emit (PrintFlags {}) (at_start ''ab\<newline>cd''))\<lparr>lineno := 2, pos := 5, applied := True\<rparr>)"
    by (rule parse_more_fuel)
  then show "\<exists>s'. parse (one_rule two_lines) n ''input'' ''ab\<newline>cd'' None PF_NONE = Ret s' \<and>
      pos s' = 5 \<and> lineno s' = 2"
    by simp
qed

section \<open>The properties at sample inputs\<close>

lemma lit_lex_simps:
  "lex_literal (lit p) (at_start t) =
     (if take (length p) t = p then (int (length p), at_start t) else (- 1, at_start t))"
  by (simp add: sample_simps lit_def str_re_def lex_literal_def)

lemma at_start_sel:
  "filename (at_start t) = ''input''" "lineno (at_start t) = 1" "input_text (at_start t) = t"
  "pos (at_start t) = 0" "applied (at_start t) = False" "flags (at_start t) = {}"
  "log (at_start t) = Stdout" "out (at_start t) = []"
  by (simp_all add: sample_simps)

theorem applies_leaves_cursor_witness:
  "pos (snd (applies star_a (at_start ''aaab''))) = 0 \<and>
   lineno (snd (applies star_a (at_start ''aaab''))) = 1"
  using applies_leaves_cursor [of star_a "at_start ''aaab''"] by (simp add: at_start_sel)

theorem parse_literal_cursor_witness:
  "fst (lex_literal (lit ''abc'') (at_start ''abcdef'')) = 3 \<and>
   applied (parse_literal (lit ''abc'') (at_start ''abcdef'')) \<and>
   pos (parse_literal (lit ''abc'') (at_start ''abcdef'')) = 3 \<and>
   fst (lex_literal (lit ''abc'') (at_start ''xyz'')) = - 1 \<and>
   \<not> applied (parse_literal (lit ''abc'') (at_start ''xyz'')) \<and>
   pos (parse_literal (lit ''abc'') (at_start ''xyz'')) = 0"
  using parse_literal_cursor [of "one_rule a_node" 0 Q_ONCE "[]" "lit ''abc''" "at_start ''abcdef''"]
        parse_literal_cursor [of "one_rule a_node" 0 Q_ONCE "[]" "lit ''abc''" "at_start ''xyz''"]
  by (simp add: lit_lex_simps at_start_sel)

theorem literal_dispatch_ignores_quant_witness:
  "parse_literal (lit ''a'') (at_start ''aaab'') = (at_start ''aaab'')\<lparr>pos := 1, applied := True\<rparr> \<and>
   parse_match (one_rule a_node) (Suc 0) (LITERAL Q_STAR [lit ''a''] (lit ''a'')) (at_start ''aaab'') =
     Ret ((at_start ''aaab'')\<lparr>pos := 1, applied := True\<rparr>) \<and>
   parse_match (one_rule a_node) (Suc 0) (ANY Q_STAR [lit ''a''] (lit ''a'')) (at_start ''aaab'') =
     Ret ((at_start ''aaab'')\<lparr>pos := 1, applied := True\<rparr>) \<and>
   parse_match (one_rule a_node) (Suc 0) (ABBREV_REF Q_STAR [lit ''a''] (Abbrev ''A'' (lit ''a'')))
       (at_start ''aaab'') =
     Ret ((at_start ''aaab'')\<lparr>pos := 1, applied := True\<rparr>) \<and>
   parse_match (one_rule a_node) (Suc 0) (LITERAL Q_STAR [lit ''a''] (lit ''a'')) (at_start ''aaab'') =
     parse_match (one_rule a_node) (Suc 0) (LITERAL Q_ONCE [] (lit ''a'')) (at_start ''aaab'') \<and>
   parse_match (one_rule a_node) (Suc 0) (ANY Q_STAR [lit ''a''] (lit ''a'')) (at_start ''aaab'') =
     parse_match (one_rule a_node) (Suc 0) (ANY Q_ONCE [] (lit ''a'')) (at_start ''aaab'') \<and>
   parse_match (one_rule a_node) (Suc 0) (ABBREV_REF Q_STAR [lit ''a''] (Abbrev ''A'' (lit ''a'')))
       (at_start ''aaab'') =
     parse_match (one_rule a_node) (Suc 0) (ABBREV_REF Q_ONCE [] (Abbrev ''A'' (lit ''a'')))
       (at_start ''aaab'')"
proof -
  have p: "parse_literal (lit ''a'') (at_start ''aaab'') =
      (at_start ''aaab'')\<lparr>pos := 1, applied := True\<rparr>"
    by code_simp
  have ab: "abbrev_literal (Abbrev ''A'' (lit ''a'')) = lit ''a''" by simp
  note t = literal_dispatch_ignores_quant [where G = "one_rule a_node" and n = 0 and k = "Suc 0"
      and q = Q_STAR and f = "[lit ''a'']" and l = "lit ''a''" and s = "at_start ''aaab''"
      and a = "Abbrev ''A'' (lit ''a'')" and q' = Q_ONCE and f' = "[]", unfolded ab p]
  show ?thesis using p t by (intro conjI) (rule p, (elim conjE, assumption)+)
qed

theorem alternative_takes_first_applicable_witness:
  "fst (applies a_then_x (at_start ''ab'')) \<and> fst (applies a_then_b (at_start ''ab'')) \<and>
   parse_match (one_rule either) 2 a_then_x (at_start ''ab'') =
     Ret ((at_start ''ab'')\<lparr>pos := 1, applied := False\<rparr>) \<and>
   parse_match (one_rule either) 2 a_then_b (at_start ''ab'') =
     Ret ((at_start ''ab'')\<lparr>pos := 2, applied := True\<rparr>) \<and>
   parse_alternative (parse_match (one_rule either) 2) either (at_start ''ab'') =
     Ret ((at_start ''ab'')\<lparr>pos := 1, applied := True\<rparr>) \<and>
   \<not> fst (applies a_then_x (at_start ''b'')) \<and> \<not> fst (applies a_then_b (at_start ''b'')) \<and>
   parse_alternative (parse_match (one_rule either) 2) either (at_start ''b'') = Ret (at_start ''b'')"
proof -
  let ?pm = "parse_match (one_rule either) 2"
  have y: "fst (applies a_then_x (at_start ''ab''))" "fst (applies a_then_b (at_start ''ab''))"
    by code_simp+
  have n: "\<not> fst (applies a_then_x (at_start ''b''))" "\<not> fst (applies a_then_b (at_start ''b''))"
    by code_simp+
  have x: "?pm a_then_x (at_start ''ab'') = Ret ((at_start ''ab'')\<lparr>pos := 1, applied := False\<rparr>)"
    by code_simp
  have b: "?pm a_then_b (at_start ''ab'') = Ret ((at_start ''ab'')\<lparr>pos := 2, applied := True\<rparr>)"
    by code_simp
  have e1: "applies_each ([] @ [a_then_x]) ((at_start ''ab'')\<lparr>applied := False\<rparr>) = at_start ''ab''"
    by code_simp
  have e2: "applies_each [a_then_x, a_then_b] ((at_start ''b'')\<lparr>applied := False\<rparr>) = at_start ''b''"
    by code_simp
  have "parse_alternative ?pm (ALTERNATIVE Q_ONCE [lit ''a''] ([] @ a_then_x # [a_then_b])) (at_start ''ab'') =
        Ret ((at_start ''ab'')\<lparr>pos := 1, applied := True\<rparr>)"
    using alternative_takes_first_applicable [where pre = "[]" and p = a_then_x and
        post = "[a_then_b]" and s = "at_start ''ab''" and pm = ?pm and q = Q_ONCE and
        f = "[lit ''a'']" and ms = "[]", THEN conjunct1] y(1)
    unfolding e1 x by simp
  moreover have "parse_alternative ?pm (ALTERNATIVE Q_ONCE [lit ''a''] [a_then_x, a_then_b]) (at_start ''b'') =
        Ret (at_start ''b'')"
    using alternative_takes_first_applicable [where pre = "[]" and p = a_then_x and
        post = "[]" and s = "at_start ''b''" and pm = ?pm and q = Q_ONCE and
        f = "[lit ''a'']" and ms = "[a_then_x, a_then_b]", THEN conjunct2, THEN conjunct1] n
    unfolding e2 by simp
  ultimately show ?thesis using y n x b by (simp add: either_def)
qed

theorem plus_quantifier_witness:
  "quant plus_a = Q_PLUS \<and>
   parse_sequence (parse_match (one_rule plus_a) 1) plus_a (at_start ''b'') = Ret (at_start ''b'') \<and>
   \<not> applied (at_start ''b'') \<and>
   (\<exists>s'. parse_quant_match (parse_sequence (parse_match (one_rule plus_a) 1)) 0 plus_a (at_start ''b'') = Ret s' \<and>
         out s' = out (at_start ''b'') @ [GrammarError ''input'' 1 ''match did not apply'' []]) \<and>
   parse_sequence (parse_match (one_rule plus_a) 1) plus_a (at_start ''aab'') =
     Ret ((at_start ''aab'')\<lparr>pos := 1, applied := True\<rparr>) \<and>
   parse_quant_match (parse_sequence (parse_match (one_rule plus_a) 1)) 2 plus_a (at_start ''aab'') =
     Ret ((at_start ''aab'')\<lparr>pos := 2, applied := True\<rparr>) \<and>
   (\<exists>s2. plus_repeat (parse_sequence (parse_match (one_rule plus_a) 1) plus_a)
           ((at_start ''aab'')\<lparr>pos := 1, applied := True\<rparr>) s2 \<and>
         (at_start ''aab'')\<lparr>pos := 2, applied := True\<rparr> = s2\<lparr>applied := True\<rparr>)"
proof -
  let ?func = "parse_sequence (parse_match (one_rule plus_a) 1)"
  have q: "quant plus_a = Q_PLUS" by (simp add: plus_a_def)
  have f1: "?func plus_a (at_start ''b'') = Ret (at_start ''b'')" by code_simp
  have n1: "\<not> applied (at_start ''b'')" by (simp add: at_start_sel)
  have f2: "?func plus_a (at_start ''aab'') = Ret ((at_start ''aab'')\<lparr>pos := 1, applied := True\<rparr>)"
    by code_simp
  have a2: "applied ((at_start ''aab'')\<lparr>pos := 1, applied := True\<rparr>)" by simp
  have r2: "parse_quant_match ?func 2 plus_a (at_start ''aab'') =
      Ret ((at_start ''aab'')\<lparr>pos := 2, applied := True\<rparr>)"
    by code_simp
  have "\<exists>s'. parse_quant_match ?func 0 plus_a (at_start ''b'') = Ret s' \<and>
         out s' = out (at_start ''b'') @ [GrammarError ''input'' 1 ''match did not apply'' []]"
    using plus_quantifier [where m = plus_a and func = ?func and s = "at_start ''b''" and
        ?s1.0 = "at_start ''b''" and k = 0, OF q f1, THEN conjunct1] n1
    by (simp add: at_start_sel)
  moreover have "\<exists>s2. plus_repeat (?func plus_a) ((at_start ''aab'')\<lparr>pos := 1, applied := True\<rparr>) s2 \<and>
         (at_start ''aab'')\<lparr>pos := 2, applied := True\<rparr> = s2\<lparr>applied := True\<rparr>"
    using plus_quantifier [where m = plus_a and func = ?func and s = "at_start ''aab''" and
        ?s1.0 = "(at_start ''aab'')\<lparr>pos := 1, applied := True\<rparr>" and k = 0, OF q f2, THEN conjunct2] a2 r2
    by blast
  ultimately show ?thesis using q f1 n1 f2 r2 by simp
qed

theorem star_quantifier_witness:
  "quant star_a = Q_STAR \<and>
   parse_quant_match (parse_sequence (parse_match (one_rule star_a) 1)) 3 star_a (at_start ''aaab'') =
     Ret ((at_start ''aaab'')\<lparr>pos := 3, applied := True\<rparr>) \<and>
   (\<exists>s2. star_repeat (parse_sequence (parse_match (one_rule star_a) 1)) star_a (at_start ''aaab'') s2 \<and>
         (at_start ''aaab'')\<lparr>pos := 3, applied := True\<rparr> = s2\<lparr>applied := True\<rparr>) \<and>
   \<not> fst (applies star_a (at_start ''b'')) \<and>
   parse_quant_match (parse_sequence (parse_match (one_rule star_a) 1)) 0 star_a (at_start ''b'') =
     Ret ((at_start ''b'')\<lparr>applied := True\<rparr>) \<and>
   parse_match (one_rule star_a) 7 star_a (at_start ''aaab'') =
     Ret ((at_start ''aaab'')\<lparr>pos := 3, applied := True\<rparr>)"
proof -
  let ?func = "parse_sequence (parse_match (one_rule star_a) 1)"
  have q: "quant star_a = Q_STAR" by (simp add: star_a_def)
  have r: "parse_quant_match ?func 3 star_a (at_start ''aaab'') =
      Ret ((at_start ''aaab'')\<lparr>pos := 3, applied := True\<rparr>)"
    by code_simp
  have n: "\<not> fst (applies star_a (at_start ''b''))" by code_simp
  have e: "snd (applies star_a (at_start ''b'')) = at_start ''b''" by code_simp
  note t1 = star_quantifier [where m = star_a and func = ?func and s = "at_start ''aaab''" and k = 0,
      THEN conjunct1, THEN mp, OF q]
  note t2 = star_quantifier [where m = star_a and func = ?func and s = "at_start ''b''" and k = 0,
      THEN conjunct1, THEN mp, OF q]
  have "\<exists>s2. star_repeat ?func star_a (at_start ''aaab'') s2 \<and>
         (at_start ''aaab'')\<lparr>pos := 3, applied := True\<rparr> = s2\<lparr>applied := True\<rparr>"
    using t1 [THEN conjunct1] r by blast
  moreover have "parse_quant_match ?func 0 star_a (at_start ''b'') = Ret ((at_start ''b'')\<lparr>applied := True\<rparr>)"
    using t2 [THEN conjunct2, THEN conjunct2] n e by simp
  moreover have "parse_match (one_rule star_a) 7 star_a (at_start ''aaab'') =
     Ret ((at_start ''aaab'')\<lparr>pos := 3, applied := True\<rparr>)"
    using star_quantifier [where n = 7, THEN conjunct2, THEN conjunct1] by simp
  ultimately show ?thesis using q r n by simp
qed

theorem plus_failure_not_propagated_witness:
  "parse_sequence (parse_match (one_rule plus_a_then_b) 1) plus_a (at_start ''b'') =
     Ret (at_start ''b'') \<and>
   parse_sequence (parse_match (one_rule plus_a_then_b) 1) plus_a ((at_start ''b'')\<lparr>applied := True\<rparr>) =
     Ret (at_start ''b'') \<and>
   \<not> applied (at_start ''b'') \<and>
   parse_match (one_rule plus_a_then_b) 2 plus_a (at_start ''b'') =
     Ret ((at_start ''b'')\<lparr>applied := True, out := [GrammarError ''input'' 1 ''match did not apply'' []]\<rparr>) \<and>
   parse_match (one_rule plus_a_then_b) 2 plus_a ((at_start ''b'')\<lparr>applied := True\<rparr>) =
     Ret ((at_start ''b'')\<lparr>applied := True, out := [GrammarError ''input'' 1 ''match did not apply'' []]\<rparr>) \<and>
   parse_sequence (parse_match (one_rule plus_a_then_b) 2) plus_a_then_b (at_start ''b'') =
     Ret ((at_start ''b'')\<lparr>pos := 1, applied := True,
            out := [GrammarError ''input'' 1 ''match did not apply'' []]\<rparr>) \<and>
   parse_succeeded (parse (one_rule plus_a) 3 ''input'' [] None PF_NONE)"
proof -
  let ?G = "one_rule plus_a_then_b"
  let ?s' = "(at_start ''b'')\<lparr>applied := True, out := [GrammarError ''input'' 1 ''match did not apply'' []]\<rparr>"
  have f0: "parse_sequence (parse_match ?G 1) plus_a (at_start ''b'') = Ret (at_start ''b'')"
    by code_simp
  have f1: "parse_sequence (parse_match ?G 1) plus_a ((at_start ''b'')\<lparr>applied := True\<rparr>) = Ret (at_start ''b'')"
    by code_simp
  have n: "\<not> applied (at_start ''b'')" by (simp add: at_start_sel)
  have s': "?s' = (grammar_error (filename (at_start ''b'')) (lineno (at_start ''b''))
                    ''match did not apply'' [] (at_start ''b''))\<lparr>applied := True\<rparr>"
    by code_simp
  have k: "plus_a = SEQUENCE Q_PLUS [lit ''a''] [a_node] \<and>
           parse_sequence (parse_match ?G 1) = parse_sequence (parse_match ?G 1)"
    by (simp add: plus_a_def)
  note t0 = plus_failure_not_propagated [where m = plus_a and func = "parse_sequence (parse_match ?G 1)"
      and G = ?G and n = 1 and f = "[lit ''a'']" and ms = "[a_node]" and s = "at_start ''b''"
      and ?s1.0 = "at_start ''b''" and s' = ?s' and q' = Q_ONCE and f' = "[]" and rest = "[b_node]"
      and ?s0.0 = "at_start ''b''",
      OF disjI2 [OF disjI1 [OF k]] f0 n s']
  note t1 = plus_failure_not_propagated [where m = plus_a and func = "parse_sequence (parse_match ?G 1)"
      and G = ?G and n = 1 and f = "[lit ''a'']" and ms = "[a_node]"
      and s = "(at_start ''b'')\<lparr>applied := True\<rparr>"
      and ?s1.0 = "at_start ''b''" and s' = ?s' and q' = Q_ONCE and f' = "[]" and rest = "[b_node]"
      and ?s0.0 = "at_start ''b''",
      OF disjI2 [OF disjI1 [OF k]] f1 n s']
  have rest: "sequence_loop (parse_match ?G (Suc 1)) [b_node] ?s' = Ret (?s'\<lparr>pos := 1\<rparr>)"
    by code_simp
  have "parse_sequence (parse_match ?G 2) plus_a_then_b (at_start ''b'') = Ret (?s'\<lparr>pos := 1\<rparr>)"
    using t1 rest by (simp add: plus_a_then_b_def numeral_2_eq_2)
  moreover have "parse_match ?G 2 plus_a ((at_start ''b'')\<lparr>applied := True\<rparr>) = Ret ?s'"
    using t1 by (simp add: numeral_2_eq_2)
  moreover have "parse_match ?G 2 plus_a (at_start ''b'') = Ret ?s'"
    using t0 by (simp add: numeral_2_eq_2)
  moreover have "parse_succeeded (parse (one_rule plus_a) 3 ''input'' [] None PF_NONE)"
    by code_simp
  ultimately show ?thesis using f0 f1 n by simp
qed

lemma lit_ok_lit: "lit_ok (lit p)"
  unfolding lit_ok_def
proof (intro allI impI)
  fix t off m0 m1
  assume a: "re (lit p) t off = Some (m0, m1)"
  then have c: "0 \<le> off" "off \<le> int (length t)" "take (length p) (drop (nat off) t) = p"
      and m: "m0 = off" "m1 = off + int (length p)"
    by (auto simp: lit_def str_re_def split: if_splits)
  have "length (take (length p) (drop (nat off) t)) = length p" using c(3) by simp
  then have "length p \<le> length t - nat off" by simp
  then show "off \<le> m0 \<and> m1 \<le> int (length t)" using c(1,2) m by linarith
qed

lemma grammar_lits_one_rule: "grammar_lits (one_rule m) = lits_of m"
  by (simp add: grammar_lits_def one_rule_def)

theorem parse_success_iff_witness:
  "c_string ''aaab'' \<and> c_string ''aaa'' \<and> lit_ok (lit ''a'') \<and>
   grammar_lits (one_rule star_a) = {lit ''a''} \<and>
   rules (one_rule star_a) = [Rule ''root'' star_a] \<and>
   parse_rule (parse_match (one_rule star_a) 5) (Rule ''root'' star_a)
       (emit (PrintFlags {}) (at_start ''aaab'')) =
     Ret ((emit (PrintFlags {}) (at_start ''aaab''))\<lparr>pos := 3, applied := True\<rparr>) \<and>
   \<not> parse_succeeded (parse (one_rule star_a) 5 ''input'' ''aaab'' None PF_NONE) \<and>
   parse_rule (parse_match (one_rule star_a) 5) (Rule ''root'' star_a)
       (emit (PrintFlags {}) (at_start ''aaa'')) =
     Ret ((emit (PrintFlags {}) (at_start ''aaa''))\<lparr>pos := 3, applied := True\<rparr>) \<and>
   parse_succeeded (parse (one_rule star_a) 5 ''input'' ''aaa'' None PF_NONE)"
proof -
  let ?G = "one_rule star_a"
  have c: "c_string ''aaab''" "c_string ''aaa''" by (simp_all add: c_string_def)
  have gl: "grammar_lits ?G = {lit ''a''}"
    by (simp add: grammar_lits_one_rule star_a_def a_node_def)
  have ok: "\<forall>l\<in>grammar_lits ?G. lit_ok l" by (simp add: gl lit_ok_lit)
  have ru: "rules ?G = Rule ''root'' star_a # []" by (simp add: one_rule_def)
  have fl: "flags (initial_state ''input'' t None PF_NONE) = {}" for t
    by (simp add: initial_state_def PF_NONE_def)
  have r1: "parse_rule (parse_match ?G 5) (Rule ''root'' star_a)
       (emit (PrintFlags {}) (at_start ''aaab'')) =
     Ret ((emit (PrintFlags {}) (at_start ''aaab''))\<lparr>pos := 3, applied := True\<rparr>)"
    by code_simp
  have r2: "parse_rule (parse_match ?G 5) (Rule ''root'' star_a)
       (emit (PrintFlags {}) (at_start ''aaa'')) =
     Ret ((emit (PrintFlags {}) (at_start ''aaa''))\<lparr>pos := 3, applied := True\<rparr>)"
    by code_simp
  have r1': "parse_rule (parse_match ?G 5) (Rule ''root'' star_a)
       (emit (PrintFlags (flags (initial_state ''input'' ''aaab'' None PF_NONE)))
          (initial_state ''input'' ''aaab'' None PF_NONE)) =
     Ret ((emit (PrintFlags {}) (at_start ''aaab''))\<lparr>pos := 3, applied := True\<rparr>)"
    using r1 by (simp add: fl at_start_def)
  have r2': "parse_rule (parse_match ?G 5) (Rule ''root'' star_a)
       (emit (PrintFlags (flags (initial_state ''input'' ''aaa'' None PF_NONE)))
          (initial_state ''input'' ''aaa'' None PF_NONE)) =
     Ret ((emit (PrintFlags {}) (at_start ''aaa''))\<lparr>pos := 3, applied := True\<rparr>)"
    using r2 by (simp add: fl at_start_def)
  have "\<not> parse_succeeded (parse ?G 5 ''input'' ''aaab'' None PF_NONE)"
    using parse_success_iff [OF c(1) ok ru refl r1', THEN conjunct1] by simp
  moreover have "parse_succeeded (parse ?G 5 ''input'' ''aaa'' None PF_NONE)"
    using parse_success_iff [OF c(2) ok ru refl r2', THEN conjunct1] by simp
  ultimately show ?thesis using c gl ru r1 r2 lit_ok_lit by simp
qed

theorem line_counter_counts_newlines_witness:
  "0 \<le> pos (at_start ''ab\<newline>cd'') \<and>
   lineno (advance (at_start ''ab\<newline>cd'') 2) = 1 \<and>
   lineno (advance (at_start ''ab\<newline>cd'') 3) = 2 \<and>
   lineno (advance (at_start ''ab\<newline>cd'') 5) = 2 \<and>
   parse (one_rule two_lines) 2 ''input'' ''ab\<newline>cd'' None PF_NONE =
     Ret ((emit (PrintFlags {}) (at_start ''ab\<newline>cd''))\<lparr>lineno := 2, pos := 5, applied := True\<rparr>) \<and>
   1 + int (newlines (take (nat 5) ''ab\<newline>cd'')) = 2 \<and>
   (\<exists>s'. parse (one_rule two_lines) 3 ''input'' ''ab\<newline>cd'' None PF_NONE = Ret s' \<and>
      pos s' = 5 \<and> lineno s' = 2)"
proof -
  let ?s = "at_start ''ab\<newline>cd''"
  have p: "0 \<le> pos ?s" by (simp add: at_start_sel)
  note t = line_counter_counts_newlines [where s = ?s and G = "one_rule two_lines" and fuel = 2
      and fname = "''input''" and t = "''ab\<newline>cd''" and lg = None and fl = PF_NONE]
  have a: "lineno (advance ?s cnt) = 1 + int (newlines (take (nat cnt) ''ab\<newline>cd''))" for cnt
    using t [where cnt = cnt, THEN conjunct1] p by (simp add: at_start_sel)
  have r: "parse (one_rule two_lines) 2 ''input'' ''ab\<newline>cd'' None PF_NONE =
     Ret ((emit (PrintFlags {}) ?s)\<lparr>lineno := 2, pos := 5, applied := True\<rparr>)"
    by code_simp
  have "lineno ((emit (PrintFlags {}) ?s)\<lparr>lineno := 2, pos := 5, applied := True\<rparr>) =
      1 + int (newlines (take (nat (pos ((emit (PrintFlags {}) ?s)\<lparr>lineno := 2, pos := 5, applied := True\<rparr>))) ''ab\<newline>cd''))"
    using t [where cnt = 0, THEN conjunct2, THEN conjunct2, THEN conjunct2, THEN conjunct1] r by blast
  then have n: "1 + int (newlines (take (nat 5) ''ab\<newline>cd'')) = 2" by simp
  have "lineno (advance ?s 2) = 1" "lineno (advance ?s 3) = 2" "lineno (advance ?s 5) = 2"
    unfolding a by (simp_all add: newlines_def)
  moreover have "\<exists>s'. parse (one_rule two_lines) 3 ''input'' ''ab\<newline>cd'' None PF_NONE = Ret s' \<and>
      pos s' = 5 \<and> lineno s' = 2"
    using line_counter_counts_newlines [where n = 3, THEN conjunct2, THEN conjunct2,
        THEN conjunct2, THEN conjunct2]
    by simp
  ultimately show ?thesis using p r n by simp
qed

end
